theory Spec2Isabelle
  imports Main "HOL-Library.AList" "HOL-Library.Multiset" "HOL-Library.Char_ord"
    "HOL-Library.List_Lexorder"
begin

section \<open>Regular expressions as the parser uses them\<close>

text \<open>
  \<^verbatim>\<open>tlsparser.py\<close> reads report texts and file names with \<^verbatim>\<open>re.findall\<close>.
  Both patterns are sequences of single-character items, each taken once or repeated
  greedily (\<^verbatim>\<open>x+\<close>), with capture groups around runs of items. A Python \<^verbatim>\<open>str\<close> is
  modelled as a list of 8-bit characters: the code points below 256.

  The character classes are those of Python 3's \<^verbatim>\<open>re\<close> for \<^verbatim>\<open>str\<close> patterns,
  restricted to these code points.
\<close>

definition is_digit :: "char \<Rightarrow> bool" where
  "is_digit c \<longleftrightarrow> 48 \<le> (of_char c :: nat) \<and> (of_char c :: nat) \<le> 57"

definition is_space :: "char \<Rightarrow> bool" where
  "is_space c \<longleftrightarrow>
     (let n = (of_char c :: nat)
      in (9 \<le> n \<and> n \<le> 13) \<or> (28 \<le> n \<and> n \<le> 32) \<or> n = 133 \<or> n = 160)"

definition is_word :: "char \<Rightarrow> bool" where
  "is_word c \<longleftrightarrow>
     (let n = (of_char c :: nat)
      in (48 \<le> n \<and> n \<le> 57) \<or> (65 \<le> n \<and> n \<le> 90) \<or> n = 95 \<or> (97 \<le> n \<and> n \<le> 122)
         \<or> n = 170 \<or> n = 178 \<or> n = 179 \<or> n = 181 \<or> n = 185 \<or> n = 186
         \<or> n = 188 \<or> n = 189 \<or> n = 190
         \<or> (192 \<le> n \<and> n \<le> 214) \<or> (216 \<le> n \<and> n \<le> 246) \<or> 248 \<le> n)"

definition any_char :: "char \<Rightarrow> bool" where
  \<comment> \<open>\<^verbatim>\<open>.\<close> without DOTALL: anything but a newline\<close>
  "any_char c \<longleftrightarrow> c \<noteq> CHR 0x0A"

datatype quant = Once | Many

type_synonym atom = "(char \<Rightarrow> bool) \<times> quant"

definition lit :: "char \<Rightarrow> atom" where
  "lit c = ((\<lambda>d. d = c), Once)"

text \<open>
  The matcher backtracks as \<^verbatim>\<open>re\<close> does: a greedy repetition first takes the longest
  run of its class and gives characters back one by one (never fewer than one) until
  the rest of the pattern matches. The result is the number of characters each item
  consumed.
\<close>

fun greedy :: "(nat \<Rightarrow> nat list option) \<Rightarrow> nat \<Rightarrow> nat list option" where
  "greedy k 0 = None"
| "greedy k (Suc n) =
     (case k (Suc n) of Some ls \<Rightarrow> Some (Suc n # ls) | None \<Rightarrow> greedy k n)"

primrec match_here :: "atom list \<Rightarrow> string \<Rightarrow> nat list option" where
  "match_here [] s = Some []"
| "match_here (a # as) s =
     (case snd a of
        Once \<Rightarrow>
          (case s of
             [] \<Rightarrow> None
           | c # cs \<Rightarrow> if fst a c then map_option ((#) 1) (match_here as cs) else None)
      | Many \<Rightarrow> greedy (\<lambda>n. match_here as (drop n s)) (length (takeWhile (fst a) s)))"

text \<open>The leftmost match: the offset where it starts and the lengths of its items.\<close>

fun re_search :: "atom list \<Rightarrow> string \<Rightarrow> (nat \<times> nat list) option" where
  "re_search p [] = map_option (Pair 0) (match_here p [])"
| "re_search p (c # cs) =
     (case match_here p (c # cs) of
        Some ls \<Rightarrow> Some (0, ls)
      | None \<Rightarrow> map_option (\<lambda>(i, ls). (Suc i, ls)) (re_search p cs))"

text \<open>A capture group is given by the index of its first item and the number of its items.\<close>

definition group_text :: "string \<Rightarrow> nat \<Rightarrow> nat list \<Rightarrow> nat \<times> nat \<Rightarrow> string" where
  "group_text s i ls g =
     take (sum_list (take (snd g) (drop (fst g) ls)))
          (drop (i + sum_list (take (fst g) ls)) s)"

text \<open>
  \<^verbatim>\<open>findall\<close>: the groups of every match, left to right, each search starting where the
  previous match ended (one character further after an empty match).
\<close>

function findall :: "atom list \<Rightarrow> (nat \<times> nat) list \<Rightarrow> string \<Rightarrow> string list list" where
  "findall p gs s =
     (case re_search p s of
        None \<Rightarrow> []
      | Some (i, ls) \<Rightarrow>
          map (group_text s i ls) gs #
          (if s = [] then [] else findall p gs (drop (max 1 (i + sum_list ls)) s)))"
  by pat_completeness auto
termination
  by (relation "measure (\<lambda>(p, gs, s). length s)") auto

declare findall.simps [simp del]

section \<open>Report Decoder\<close>

definition LIST_OF_ATTACKS :: "string list" where
  "LIST_OF_ATTACKS =
     [''Padding Oracle'', ''Bleichenbacher'', ''CRIME'', ''Breach'', ''Invalid Curve'',
      ''Invalid Curve Ephemerals'', ''SSL Poodle'', ''TLS Poodle'', ''CVE-20162107'',
      ''Logjam'', ''Sweet 32'', ''DROWN'', ''Heartbleed'', ''EarlyCcs'']"

text \<open>
  The fourth bug name is written \<^verbatim>\<open>"CS Length Intolerant \(>512 Byte\)"\<close> in a plain
  (not raw) Python string: \<^verbatim>\<open>\(\<close> is no escape sequence of Python, so both backslashes
  stay in the name. \<open>CHR 0x5C\<close> is the backslash.
\<close>

definition LIST_OF_BUGS :: "string list" where
  "LIST_OF_BUGS =
     [''Version Intolerant'', ''Ciphersuite Intolerant'', ''Extension Intolerant'',
      ''CS Length Intolerant '' @ [CHR 0x5C] @ ''(>512 Byte'' @ [CHR 0x5C] @ '')'',
      ''Compression Intolerant'', ''ALPN Intolerant'', ''CH Length Intolerant'',
      ''NamedGroup Intolerant'', ''Empty last Extension Intolerant'',
      ''SigHashAlgo Intolerant'', ''Big ClientHello Intolerant'',
      ''2nd Ciphersuite Byte Bug'', ''Ignores offered Ciphersuites'',
      ''Reflects offered Ciphersuites'', ''Ignores offered NamedGroups'',
      ''Ignores offered SigHashAlgos'']"

text \<open>
  A catalog name is pasted into the pattern \<^verbatim>\<open>{name}\s+: (\w+)\<close> unescaped, so it is read
  as a regular expression. The names hold letters, digits, spaces, \<^verbatim>\<open>-\<close> and \<^verbatim>\<open>>\<close>,
  which stand for themselves, and backslash-escaped parentheses, which stand for the
  parenthesis.
\<close>

fun name_atoms :: "string \<Rightarrow> atom list" where
  "name_atoms [] = []"
| "name_atoms [c] = [lit c]"
| "name_atoms (c # d # ds) =
     (if c = CHR 0x5C then lit d # name_atoms ds else lit c # name_atoms (d # ds))"

definition entry_pattern :: "string \<Rightarrow> atom list" where
  "entry_pattern name =
     name_atoms name @ [(is_space, Many), lit CHR '':'', lit CHR '' '', (is_word, Many)]"

definition entry_groups :: "string \<Rightarrow> (nat \<times> nat) list" where
  "entry_groups name = [(length (name_atoms name) + 3, 1)]"

definition findall_entry :: "string \<Rightarrow> string \<Rightarrow> string list list" where
  \<comment> \<open>\<^verbatim>\<open>findall(r"{attack}\s+: (\w+)".format(attack=attack), results)\<close>\<close>
  "findall_entry name results = findall (entry_pattern name) (entry_groups name) results"

text \<open>\<^verbatim>\<open>marker in results\<close>: the marker occurs as a substring.\<close>

fun contains :: "string \<Rightarrow> string \<Rightarrow> bool" where
  "contains [] m = (m = [])"
| "contains (c # cs) m = (take (length m) (c # cs) = m \<or> contains cs m)"

type_synonym names = "(string \<times> bool) list"

definition parse_entries :: "string list \<Rightarrow> string \<Rightarrow> names" where
  "parse_entries catalog results =
     fold (\<lambda>entry acc.
             (case findall_entry entry results of
                [] \<Rightarrow> acc
              | r # _ \<Rightarrow> if r = [''true''] then AList.update entry True acc else acc))
          catalog []"

datatype decoded = DecodeError | Decoded names names

definition parse_attacks :: "string \<Rightarrow> decoded" where
  "parse_attacks results =
     (if contains results ''Cannot reach the Server'' then DecodeError
      else if contains results ''Server does not seem to support SSL'' then DecodeError
      else Decoded (parse_entries LIST_OF_ATTACKS results) (parse_entries LIST_OF_BUGS results))"

section \<open>Filename Decoder\<close>

text \<open>
  \<^verbatim>\<open>findall(r"(\d+.\d+.\d+.\d+)-(\d+)-(\w+)-(.+).txt", file)\<close>. The dots are not escaped:
  each stands for any character but a newline.
\<close>

definition filename_pattern :: "atom list" where
  "filename_pattern =
     [(is_digit, Many), (any_char, Once), (is_digit, Many), (any_char, Once),
      (is_digit, Many), (any_char, Once), (is_digit, Many),
      lit CHR ''-'', (is_digit, Many), lit CHR ''-'', (is_word, Many), lit CHR ''-'',
      (any_char, Many), (any_char, Once), lit CHR ''t'', lit CHR ''x'', lit CHR ''t'']"

definition filename_groups :: "(nat \<times> nat) list" where
  "filename_groups = [(0, 7), (8, 1), (10, 1), (12, 1)]"

definition replace_char :: "char \<Rightarrow> char \<Rightarrow> string \<Rightarrow> string" where
  \<comment> \<open>\<^verbatim>\<open>s.replace(a, b)\<close> for one-character \<^verbatim>\<open>a\<close> and \<^verbatim>\<open>b\<close>\<close>
  "replace_char a b s = map (\<lambda>c. if c = a then b else c) s"

section \<open>Data model\<close>

text \<open>
  The caller's host dataset maps an ip to a dict. The parser reads its
  \<^verbatim>\<open>vulnerabilities\<close> key (a dict whose \<^verbatim>\<open>shodan_vulnerabilities\<close> and
  \<^verbatim>\<open>vulners_vulnerabilities\<close> entries are each a list of identifiers or a dict keyed by
  identifiers) and writes its \<^verbatim>\<open>attacks\<close> and \<^verbatim>\<open>bugs\<close> keys. Everything else in an
  entry is the caller's: values of an arbitrary type \<open>'v\<close>. A dict is an association
  list in insertion order; \<open>AList.update\<close> replaces a present key in place and appends
  an absent one, as \<^verbatim>\<open>dict.update\<close> does.

  The types fix the shape that the parser relies on: identifiers are strings, and a
  dataset with a value of another shape under these keys (on which the parser would
  raise) is not a value of the model. Entries are values: no two ips share one dict.
\<close>

datatype 'v source = SList "string list" | SDict "(string \<times> 'v) list"

datatype 'v fval = Names names | Other 'v

record 'v host_entry =
  vulnerabilities_field :: "(string \<times> 'v source) list option"
  entry_fields :: "(string \<times> 'v fval) list"

type_synonym 'v hosts = "string \<rightharpoonup> 'v host_entry"

definition entry_truthy :: "'v host_entry \<Rightarrow> bool" where
  \<comment> \<open>a dict is true unless it is empty\<close>
  "entry_truthy e \<longleftrightarrow> vulnerabilities_field e \<noteq> None \<or> entry_fields e \<noteq> []"

text \<open>
  A record of the parser's own result map. The driver builds it with six keys;
  \<^verbatim>\<open>save_results_csv\<close> later adds \<^verbatim>\<open>ip\<close> and turns the two dicts into lists of their keys.
\<close>

datatype entities = EDict names | EList "string list"

record host_record =
  vendor :: string
  product :: string
  port :: string
  attacks :: entities
  bugs :: entities
  vulnerabilities :: "string list"
  ip :: "string option"

type_synonym results = "(string \<times> host_record) list"

datatype error = TypeError | AttributeError | Exception string

section \<open>Vulnerability Resolver\<close>

text \<open>
  \<^verbatim>\<open>list(set(xs))\<close> lists the distinct elements of \<^verbatim>\<open>xs\<close> in the iteration order of
  the set, which depends on the string hashes of the run. The order is a parameter
  \<open>set_order\<close> of the model; \<open>set_order_ok\<close> is all that Python promises about it.
  The set is filled in the order of \<^verbatim>\<open>xs\<close> and adding an element again changes
  nothing, so the set, and with it the order, is that of the first occurrences.
\<close>

definition set_order_ok :: "(string list \<Rightarrow> string list) \<Rightarrow> bool" where
  "set_order_ok set_order \<longleftrightarrow>
     (\<forall>xs. distinct (set_order xs) \<and> set (set_order xs) = set xs)"

definition first_occurrences :: "'a list \<Rightarrow> 'a list" where
  "first_occurrences xs = rev (remdups (rev xs))"

definition list_set :: "(string list \<Rightarrow> string list) \<Rightarrow> string list \<Rightarrow> string list" where
  "list_set set_order xs = set_order (first_occurrences xs)"

definition source_ids :: "'v source option \<Rightarrow> string list" where
  \<comment> \<open>\<^verbatim>\<open>vulns.get(key) or []\<close>, then \<^verbatim>\<open>list(x.keys())\<close> for a non-empty dict\<close>
  "source_ids src =
     (case src of None \<Rightarrow> [] | Some (SList xs) \<Rightarrow> xs | Some (SDict d) \<Rightarrow> map fst d)"

definition search_vulnerabilities ::
  "(string list \<Rightarrow> string list) \<Rightarrow> 'v hosts \<Rightarrow> string \<Rightarrow> string list" where
  "search_vulnerabilities set_order hosts host_ip =
     (case hosts host_ip of
        None \<Rightarrow> []
      | Some entry \<Rightarrow>
          if \<not> entry_truthy entry then []
          else (case vulnerabilities_field entry of
                  None \<Rightarrow> []
                | Some vulns \<Rightarrow>
                    if vulns = [] then []
                    else
                      let shodan_vulns = source_ids (map_of vulns ''shodan_vulnerabilities'');
                          vulners_vulns = source_ids (map_of vulns ''vulners_vulnerabilities'')
                      in list_set set_order (shodan_vulns @ vulners_vulns)))"

section \<open>Ingestion Driver\<close>

text \<open>
  One pass of the loop over \<^verbatim>\<open>listdir(full_path)\<close>: a file is its name and its text.
  \<open>file_record\<close> is what the file decodes to (\<open>None\<close> for the two \<^verbatim>\<open>continue\<close>
  branches): the ip, the record, and the decoded attacks and bugs.
\<close>

definition file_record ::
  "(string list \<Rightarrow> string list) \<Rightarrow> 'v hosts \<Rightarrow> string \<times> string
     \<Rightarrow> (string \<times> host_record \<times> names \<times> names) option" where
  "file_record set_order hosts file =
     (case parse_attacks (snd file) of
        DecodeError \<Rightarrow> None
      | Decoded atk bgs \<Rightarrow>
          (case findall filename_pattern filename_groups (fst file) of
             [] \<Rightarrow> None
           | g # _ \<Rightarrow>
               Some (g ! 0,
                     \<lparr>vendor = replace_char CHR ''_'' CHR '' '' (g ! 2),
                      product = replace_char CHR ''_'' CHR '' '' (g ! 3),
                      port = g ! 1,
                      attacks = EDict atk,
                      bugs = EDict bgs,
                      vulnerabilities = search_vulnerabilities set_order hosts (g ! 0),
                      ip = None\<rparr>,
                     atk, bgs)))"

definition update_entry :: "names \<Rightarrow> names \<Rightarrow> 'v host_entry \<Rightarrow> 'v host_entry" where
  "update_entry atk bgs e =
     (let e1 = (if atk \<noteq> []
                then e\<lparr>entry_fields := AList.update ''attacks'' (Names atk) (entry_fields e)\<rparr>
                else e)
      in if bgs \<noteq> []
         then e1\<lparr>entry_fields := AList.update ''bugs'' (Names bgs) (entry_fields e1)\<rparr>
         else e1)"

text \<open>
  \<^verbatim>\<open>if not all_results.get(ip)\<close>: a record of the result map has six keys and is never
  false, so the test is that the ip has no record yet.
\<close>

definition process_file ::
  "(string list \<Rightarrow> string list) \<Rightarrow> string \<times> string \<Rightarrow> results \<times> 'v hosts
     \<Rightarrow> results \<times> 'v hosts" where
  "process_file set_order file st =
     (case file_record set_order (snd st) file of
        None \<Rightarrow> st
      | Some (a, r, atk, bgs) \<Rightarrow>
          (if map_of (fst st) a = None then AList.update a r (fst st) else fst st,
           case snd st a of
             None \<Rightarrow> snd st
           | Some e \<Rightarrow> if entry_truthy e then (snd st)(a \<mapsto> update_entry atk bgs e)
                       else snd st))"

definition load_files ::
  "(string list \<Rightarrow> string list) \<Rightarrow> (string \<times> string) list \<Rightarrow> 'v hosts
     \<Rightarrow> results \<times> 'v hosts" where
  "load_files set_order files hosts = fold (process_file set_order) files ([], hosts)"

text \<open>
  The body of the loop begins with \<^verbatim>\<open>open(full_path.joinpath(file), mode="r")\<close> and
  \<^verbatim>\<open>read()\<close>, before either test. An entry of the directory is therefore its name and
  what reading it gives: the text, or the exception that \<^verbatim>\<open>open\<close> or \<^verbatim>\<open>read\<close> raises
  (the entry is a directory, may not be read, or does not decode as text). No \<^verbatim>\<open>try\<close>
  surrounds the loop or its body, so the exception leaves the loop, with the result map
  and the dataset as the earlier entries left them. \<open>load_files\<close> is the loop over
  entries that were all read.
\<close>

datatype read_error = IsADirectoryError | PermissionError | UnicodeDecodeError

type_synonym dir_entry = "string \<times> (read_error + string)"

fun load_entries ::
  "(string list \<Rightarrow> string list) \<Rightarrow> dir_entry list \<Rightarrow> results \<times> 'v hosts
     \<Rightarrow> read_error option \<times> results \<times> 'v hosts" where
  "load_entries set_order [] st = (None, st)"
| "load_entries set_order ((name, Inl e) # rest) st = (Some e, st)"
| "load_entries set_order ((name, Inr text) # rest) st =
     load_entries set_order rest (process_file set_order (name, text) st)"

section \<open>Frequency Aggregator\<close>

definition entity_names :: "entities \<Rightarrow> string list" where
  \<comment> \<open>what iterating the value yields: the keys of a dict, the elements of a list\<close>
  "entity_names x = (case x of EDict d \<Rightarrow> map fst d | EList xs \<Rightarrow> xs)"

definition chars_of :: "string \<Rightarrow> string list" where
  \<comment> \<open>iterating a \<^verbatim>\<open>str\<close> yields its characters\<close>
  "chars_of s = map (\<lambda>c. [c]) s"

definition get_entities :: "string \<Rightarrow> host_record \<Rightarrow> string list option" where
  \<comment> \<open>the items of \<^verbatim>\<open>host.get(ent_type)\<close>; \<open>None\<close> where \<^verbatim>\<open>get\<close> returns \<^verbatim>\<open>None\<close>\<close>
  "get_entities ent_type host =
     (if ent_type = ''attacks'' then Some (entity_names (attacks host))
      else if ent_type = ''bugs'' then Some (entity_names (bugs host))
      else if ent_type = ''vulnerabilities'' then Some (vulnerabilities host)
      else if ent_type = ''vendor'' then Some (chars_of (vendor host))
      else if ent_type = ''product'' then Some (chars_of (product host))
      else if ent_type = ''port'' then Some (chars_of (port host))
      else if ent_type = ''ip'' then map_option chars_of (ip host)
      else None)"

fun traverse :: "('a \<Rightarrow> error + 'b) \<Rightarrow> 'a list \<Rightarrow> error + 'b list" where
  "traverse f [] = Inr []"
| "traverse f (x # xs) =
     (case f x of
        Inl e \<Rightarrow> Inl e
      | Inr y \<Rightarrow> (case traverse f xs of Inl e \<Rightarrow> Inl e | Inr ys \<Rightarrow> Inr (y # ys)))"

definition counter_add :: "string \<Rightarrow> (string \<times> nat) list \<Rightarrow> (string \<times> nat) list" where
  "counter_add x c = AList.update x (case map_of c x of None \<Rightarrow> 1 | Some n \<Rightarrow> n + 1) c"

definition Counter :: "string list \<Rightarrow> (string \<times> nat) list" where
  \<comment> \<open>\<^verbatim>\<open>collections.Counter\<close>: counts in the order of first occurrence\<close>
  "Counter xs = fold counter_add xs []"

definition py_sorted_reverse :: "('a \<Rightarrow> 'k::linorder) \<Rightarrow> 'a list \<Rightarrow> 'a list" where
  \<comment> \<open>\<^verbatim>\<open>sorted(xs, key=key, reverse=True)\<close>: stable, equal keys keep their order\<close>
  "py_sorted_reverse key xs = rev (sort_key key (rev xs))"

definition count_unique_entities :: "results \<Rightarrow> string \<Rightarrow> error + (string \<times> nat) list" where
  "count_unique_entities results ent_type =
     (case traverse (\<lambda>host. case get_entities ent_type host of
                              None \<Rightarrow> Inl TypeError
                            | Some xs \<Rightarrow> Inr xs)
                    (map snd results) of
        Inl e \<Rightarrow> Inl e
      | Inr all_attacks \<Rightarrow> Inr (py_sorted_reverse snd (Counter (concat all_attacks))))"

section \<open>Serializer\<close>

text \<open>
  The output directory is a map from file names to what was written. \<^verbatim>\<open>json.dump\<close>
  onto the opened file is a parameter \<open>dump\<close> of the model: \<open>None\<close> when it raises
  (the bare \<^verbatim>\<open>except\<close> catches whatever it raises).
\<close>

datatype payload = Hosts results | Table "(string \<times> nat) list"

record grouped_row =
  row_attack :: string
  row_vendor :: string
  row_product :: string
  row_versions :: "string option"
  row_ips :: "string list"
  row_quantity :: nat

datatype artifact =
    Unfinished
  | JsonFile string
  | FlatCsv "host_record list"
  | UniqueCsv "(string \<times> nat) list"
  | GrouppedCsv "grouped_row list"

type_synonym files = "string \<rightharpoonup> artifact"

definition save_results_json ::
  "(payload \<Rightarrow> string option) \<Rightarrow> payload \<Rightarrow> string \<Rightarrow> files \<Rightarrow> (error + unit) \<times> files" where
  "save_results_json dump results filename fs =
     (case dump results of
        None \<Rightarrow> (Inl (Exception ''Can not save hosts to json file''), fs(filename \<mapsto> Unfinished))
      | Some text \<Rightarrow> (Inr (), fs(filename \<mapsto> JsonFile text)))"

definition entity_keys :: "entities \<Rightarrow> error + string list" where
  \<comment> \<open>\<^verbatim>\<open>list(x.keys())\<close>: a list has no \<^verbatim>\<open>keys\<close>\<close>
  "entity_keys x = (case x of EDict d \<Rightarrow> Inr (map fst d) | EList xs \<Rightarrow> Inl AttributeError)"

definition csv_row :: "string \<times> host_record \<Rightarrow> error + string \<times> host_record" where
  \<comment> \<open>the three \<^verbatim>\<open>data.update\<close> calls on the record of one ip\<close>
  "csv_row item =
     (case entity_keys (attacks (snd item)) of
        Inl e \<Rightarrow> Inl e
      | Inr a \<Rightarrow>
          (case entity_keys (bugs (snd item)) of
             Inl e \<Rightarrow> Inl e
           | Inr b \<Rightarrow>
               Inr (fst item,
                    (snd item)\<lparr>ip := Some (fst item), attacks := EList a, bugs := EList b\<rparr>)))"

text \<open>
  \<^verbatim>\<open>save_results_csv\<close> walks the records sorted by product and updates each in place.
  The sorted \<^verbatim>\<open>OrderedDict\<close> is local, the records are the caller's: the caller's map
  keeps its order and has every record updated. The function returns that map.
\<close>

definition save_results_csv ::
  "results \<Rightarrow> string \<Rightarrow> files \<Rightarrow> (error + results) \<times> files" where
  "save_results_csv results filename fs =
     (case traverse csv_row (sort_key (\<lambda>item. product (snd item)) results) of
        Inl e \<Rightarrow> (Inl e, fs(filename \<mapsto> Unfinished))
      | Inr rows \<Rightarrow>
          (traverse csv_row results, fs(filename \<mapsto> FlatCsv (map snd rows))))"

definition save_unique_results_csv ::
  "(string \<times> nat) list \<Rightarrow> string \<Rightarrow> files \<Rightarrow> (error + unit) \<times> files" where
  "save_unique_results_csv results filename fs = (Inr (), fs(filename \<mapsto> UniqueCsv results))"

section \<open>Grouped Report Builder\<close>

type_synonym product_info = "string list \<times> nat"

type_synonym groupped =
  "(string \<times> (string \<times> (string \<times> product_info) list) list) list"

fun fold_err :: "('a \<Rightarrow> 'b \<Rightarrow> error + 'b) \<Rightarrow> 'a list \<Rightarrow> 'b \<Rightarrow> error + 'b" where
  "fold_err f [] acc = Inr acc"
| "fold_err f (x # xs) acc =
     (case f x acc of Inl e \<Rightarrow> Inl e | Inr acc' \<Rightarrow> fold_err f xs acc')"

definition dict_update :: "('k \<times> 'a) list \<Rightarrow> ('k \<times> 'a) list \<Rightarrow> ('k \<times> 'a) list" where
  \<comment> \<open>\<^verbatim>\<open>d.update(other)\<close>\<close>
  "dict_update other d = fold (\<lambda>item. AList.update (fst item) (snd item)) other d"

definition has_attack :: "string \<Rightarrow> host_record \<Rightarrow> bool" where
  \<comment> \<open>\<^verbatim>\<open>attack in host.get("attacks")\<close>\<close>
  "has_attack attack host \<longleftrightarrow> attack \<in> set (entity_names (attacks host))"

definition ip_port :: "host_record \<Rightarrow> error + string" where
  \<comment> \<open>\<^verbatim>\<open>host.get("ip") + ":" + host.get("port")\<close>: \<^verbatim>\<open>None + ":"\<close> raises\<close>
  "ip_port host = (case ip host of None \<Rightarrow> Inl TypeError | Some a \<Rightarrow> Inr (a @ '':'' @ port host))"

definition product_group ::
  "host_record list \<Rightarrow> string \<Rightarrow> string \<Rightarrow> error + (string \<times> product_info) list" where
  \<comment> \<open>the body of \<^verbatim>\<open>for product in attack_products\<close>, up to \<^verbatim>\<open>res_sorted_dict\<close>\<close>
  "product_group products_with_this_attack v p =
     (case traverse ip_port
             (filter (\<lambda>host. vendor host = v \<and> product host = p) products_with_this_attack) of
        Inl e \<Rightarrow> Inl e
      | Inr ips \<Rightarrow>
          let quantity = length ips;
              sorted_ips = [(p, (ips, quantity))]
          in Inr (py_sorted_reverse (\<lambda>item. snd (snd item)) sorted_ips))"

definition vendor_group ::
  "(string list \<Rightarrow> string list) \<Rightarrow> host_record list \<Rightarrow> string
     \<Rightarrow> error + (string \<times> product_info) list" where
  "vendor_group set_order products_with_this_attack v =
     (let attack_products =
            list_set set_order
              (map product (filter (\<lambda>host. vendor host = v) products_with_this_attack))
      in fold_err (\<lambda>p acc. case product_group products_with_this_attack v p of
                             Inl e \<Rightarrow> Inl e
                           | Inr res_sorted_dict \<Rightarrow> Inr (dict_update res_sorted_dict acc))
                  attack_products [])"

definition attack_group ::
  "(string list \<Rightarrow> string list) \<Rightarrow> results \<Rightarrow> string
     \<Rightarrow> error + (string \<times> (string \<times> product_info) list) list" where
  "attack_group set_order results attack =
     (let products_with_this_attack = filter (has_attack attack) (map snd results);
          attack_vendors = list_set set_order (map vendor products_with_this_attack)
      in fold_err (\<lambda>v acc. case vendor_group set_order products_with_this_attack v of
                             Inl e \<Rightarrow> Inl e
                           | Inr prods \<Rightarrow> Inr (AList.update v prods acc))
                  attack_vendors [])"

text \<open>
  \<^verbatim>\<open>save_unique_groupped_results_csv\<close> first counts the attacks with the very lines of
  \<^verbatim>\<open>count_unique_entities\<close>, then groups the hosts of each attack.
\<close>

definition groupped_results :: "(string list \<Rightarrow> string list) \<Rightarrow> results \<Rightarrow> error + groupped" where
  "groupped_results set_order results =
     (case count_unique_entities results ''attacks'' of
        Inl e \<Rightarrow> Inl e
      | Inr entities_sorted_by_value \<Rightarrow>
          fold_err (\<lambda>attack acc. case attack_group set_order results attack of
                                    Inl e \<Rightarrow> Inl e
                                  | Inr vendors \<Rightarrow> Inr (AList.update attack vendors acc))
                   (map fst entities_sorted_by_value) [])"

definition vendor_row :: "string \<Rightarrow> string \<Rightarrow> (string \<times> product_info) list \<Rightarrow> grouped_row" where
  "vendor_row attack v prods =
     \<lparr>row_attack = attack, row_vendor = v @ '' '' @ ''(total)'', row_product = [],
      row_versions = None, row_ips = concat (map (\<lambda>info. fst (snd info)) prods),
      row_quantity = sum_list (map (\<lambda>info. snd (snd info)) prods)\<rparr>"

definition product_row :: "string \<Rightarrow> string \<Rightarrow> string \<times> product_info \<Rightarrow> grouped_row" where
  "product_row attack v item =
     \<lparr>row_attack = attack, row_vendor = v, row_product = fst item, row_versions = None,
      row_ips = fst (snd item), row_quantity = snd (snd item)\<rparr>"

definition groupped_rows :: "groupped \<Rightarrow> grouped_row list" where
  "groupped_rows g =
     concat (map (\<lambda>(attack, vendors).
                    concat (map (\<lambda>(v, prods).
                                   vendor_row attack v prods # map (product_row attack v) prods)
                                vendors))
                 g)"

definition save_unique_groupped_results_csv ::
  "(string list \<Rightarrow> string list) \<Rightarrow> results \<Rightarrow> string \<Rightarrow> files \<Rightarrow> (error + unit) \<times> files" where
  "save_unique_groupped_results_csv set_order results filename fs =
     (case groupped_results set_order results of
        Inl e \<Rightarrow> (Inl e, fs)
      | Inr g \<Rightarrow> (Inr (), fs(filename \<mapsto> GrouppedCsv (groupped_rows g))))"

section \<open>The ingestion run\<close>

definition FULL_RESULTS_JSON :: string where
  "FULL_RESULTS_JSON = ''tls_scanner_results.json''"
definition UNIQUE_ATTACKS_JSON :: string where
  "UNIQUE_ATTACKS_JSON = ''tls_scanner_attacks.json''"
definition UNIQUE_BUGS_JSON :: string where
  "UNIQUE_BUGS_JSON = ''tls_scanner_bugs.json''"
definition UNIQUE_VULNERABILITIES_JSON :: string where
  "UNIQUE_VULNERABILITIES_JSON = ''tls_scanner_vulnerabilities.json''"
definition FULL_RESULTS_CSV :: string where
  "FULL_RESULTS_CSV = ''tls_scanner_results.csv''"
definition UNIQUE_ATTACKS_CSV :: string where
  "UNIQUE_ATTACKS_CSV = ''tls_scanner_attacks.csv''"
definition UNIQUE_BUGS_CSV :: string where
  "UNIQUE_BUGS_CSV = ''tls_scanner_bugs.csv''"
definition UNIQUE_VULNERABILITIES_CSV :: string where
  "UNIQUE_VULNERABILITIES_CSV = ''tls_scanner_vulnerabilities.csv''"
definition UNIQUE_GROUPPED_PRODUCTS_RESULTS_CSV :: string where
  "UNIQUE_GROUPPED_PRODUCTS_RESULTS_CSV = ''tls_scanner_groupped.csv''"

text \<open>
  The calls after the loop run one after the other; an exception of one of them leaves
  \<^verbatim>\<open>load_tls_scan_results\<close>, since nothing there catches it.
\<close>

definition exn_bind ::
  "('s \<Rightarrow> (error + 'a) \<times> 's) \<Rightarrow> ('a \<Rightarrow> 's \<Rightarrow> (error + 'b) \<times> 's) \<Rightarrow> 's \<Rightarrow> (error + 'b) \<times> 's" where
  "exn_bind m k s = (case m s of (Inl e, s') \<Rightarrow> (Inl e, s') | (Inr x, s') \<Rightarrow> k x s')"

definition exn_lift :: "error + 'a \<Rightarrow> 's \<Rightarrow> (error + 'a) \<times> 's" where
  "exn_lift r s = (r, s)"

definition save_all ::
  "(string list \<Rightarrow> string list) \<Rightarrow> (payload \<Rightarrow> string option) \<Rightarrow> results \<Rightarrow> files
     \<Rightarrow> (error + unit) \<times> files" where
  "save_all set_order dump all_results =
     exn_bind (exn_lift (count_unique_entities all_results ''attacks'')) (\<lambda>unique_attacks.
     exn_bind (exn_lift (count_unique_entities all_results ''bugs'')) (\<lambda>unique_bugs.
     exn_bind (exn_lift (count_unique_entities all_results ''vulnerabilities''))
       (\<lambda>unique_vulnerabilities.
     exn_bind (save_results_json dump (Hosts all_results) FULL_RESULTS_JSON) (\<lambda>_.
     exn_bind (save_results_json dump (Table unique_attacks) UNIQUE_ATTACKS_JSON) (\<lambda>_.
     exn_bind (save_results_json dump (Table unique_bugs) UNIQUE_BUGS_JSON) (\<lambda>_.
     exn_bind (save_results_json dump (Table unique_vulnerabilities)
                 UNIQUE_VULNERABILITIES_JSON) (\<lambda>_.
     exn_bind (save_results_csv all_results FULL_RESULTS_CSV) (\<lambda>all_results.
     exn_bind (save_unique_results_csv unique_attacks UNIQUE_ATTACKS_CSV) (\<lambda>_.
     exn_bind (save_unique_results_csv unique_bugs UNIQUE_BUGS_CSV) (\<lambda>_.
     exn_bind (save_unique_results_csv unique_vulnerabilities UNIQUE_VULNERABILITIES_CSV) (\<lambda>_.
     save_unique_groupped_results_csv set_order all_results
       UNIQUE_GROUPPED_PRODUCTS_RESULTS_CSV)))))))))))"

text \<open>
  \<^verbatim>\<open>load_tls_scan_results\<close>: the caller's dataset as the loop left it, the outcome of the
  calls after the loop, and the output directory.
\<close>

definition load_tls_scan_results ::
  "(string list \<Rightarrow> string list) \<Rightarrow> (payload \<Rightarrow> string option) \<Rightarrow> (string \<times> string) list
     \<Rightarrow> 'v hosts \<Rightarrow> files \<Rightarrow> 'v hosts \<times> (error + unit) \<times> files" where
  "load_tls_scan_results set_order dump files hosts fs =
     (let st = load_files set_order files hosts
      in (snd st, save_all set_order dump (fst st) fs))"

text \<open>
  The same from the entries of the directory: when reading an entry raises, none of the
  calls after the loop is made and nothing is written.
\<close>

definition load_tls_scan_results_dir ::
  "(string list \<Rightarrow> string list) \<Rightarrow> (payload \<Rightarrow> string option) \<Rightarrow> dir_entry list
     \<Rightarrow> 'v hosts \<Rightarrow> files \<Rightarrow> 'v hosts \<times> (read_error + (error + unit)) \<times> files" where
  "load_tls_scan_results_dir set_order dump entries hosts fs =
     (case load_entries set_order entries ([], hosts) of
        (Some e, all_results, hosts') \<Rightarrow> (hosts', Inl e, fs)
      | (None, all_results, hosts') \<Rightarrow>
          (case save_all set_order dump all_results fs of
             (outcome, fs') \<Rightarrow> (hosts', Inr outcome, fs')))"

definition readable :: "string \<times> string \<Rightarrow> dir_entry" where
  "readable file = (fst file, Inr (snd file))"

section \<open>Notions of the specification and example data\<close>

text \<open>
  The identifiers that a vulnerability sub-source contributes, in the words of the
  specification: the elements of a list, the keys of a mapping, nothing when the
  sub-source is missing.
\<close>

definition source_identifiers :: "'v source option \<Rightarrow> string set" where
  "source_identifiers src =
     (case src of
        None \<Rightarrow> {}
      | Some (SList xs) \<Rightarrow> set xs
      | Some (SDict d) \<Rightarrow> dom (map_of d))"

text \<open>A dataset of two hosts, the caller's values being numbers.\<close>

definition demo_hosts :: "nat hosts" where
  "demo_hosts =
     [''10.0.0.1'' \<mapsto>
        \<lparr>vulnerabilities_field =
           Some [(''shodan_vulnerabilities'',
                  SDict [(''CVE-2014-0160'', 7), (''CVE-2015-0204'', 4)]),
                 (''vulners_vulnerabilities'',
                  SList [''CVE-2015-0204'', ''CVE-2016-2107''])],
         entry_fields = [(''attacks'', Other 0), (''country'', Other 1)]\<rparr>,
      ''10.0.0.2'' \<mapsto> \<lparr>vulnerabilities_field = None, entry_fields = []\<rparr>]"

text \<open>
  What the resolver reads of the dataset at an ip: whether the entry counts as true, and
  its \<^verbatim>\<open>vulnerabilities\<close> field. The loop never changes it.
\<close>

definition vuln_view ::
  "'v hosts \<Rightarrow> string \<Rightarrow> (bool \<times> (string \<times> 'v source) list option) option" where
  "vuln_view hosts a = map_option (\<lambda>e. (entry_truthy e, vulnerabilities_field e)) (hosts a)"

text \<open>
  The grouped report in closed form: the \<^verbatim>\<open>ip:port\<close> string of a host, the hosts of a
  vendor's product, the products of a vendor and the vendors of an attack, listed in the
  order of the set iteration.
\<close>

definition ip_port_text :: "host_record \<Rightarrow> string" where
  "ip_port_text h = (case ip h of None \<Rightarrow> [] | Some a \<Rightarrow> a) @ '':'' @ port h"

definition product_hosts :: "host_record list \<Rightarrow> string \<Rightarrow> string \<Rightarrow> host_record list" where
  "product_hosts hs v p = filter (\<lambda>host. vendor host = v \<and> product host = p) hs"

definition vendor_products ::
  "(string list \<Rightarrow> string list) \<Rightarrow> host_record list \<Rightarrow> string \<Rightarrow> (string \<times> product_info) list" where
  "vendor_products set_order hs v =
     map (\<lambda>p. (p, (map ip_port_text (product_hosts hs v p), length (product_hosts hs v p))))
         (list_set set_order (map product (filter (\<lambda>host. vendor host = v) hs)))"

definition attack_vendors ::
  "(string list \<Rightarrow> string list) \<Rightarrow> results \<Rightarrow> string
     \<Rightarrow> (string \<times> (string \<times> product_info) list) list" where
  "attack_vendors set_order results attack =
     (let hs = filter (has_attack attack) (map snd results)
      in map (\<lambda>v. (v, vendor_products set_order hs v)) (list_set set_order (map vendor hs)))"

text \<open>
  What \<^verbatim>\<open>save_results_csv\<close> does to the record of one ip, in the words of the claim:
  the ip is stored under \<^verbatim>\<open>ip\<close>, and the attacks and bugs become the lists of their
  names. \<open>fresh_record\<close> describes a record as the loop builds it.
\<close>

definition with_ip :: "string \<times> host_record \<Rightarrow> string \<times> host_record" where
  "with_ip item =
     (fst item,
      (snd item)\<lparr>ip := Some (fst item),
                 attacks := EList (entity_names (attacks (snd item))),
                 bugs := EList (entity_names (bugs (snd item)))\<rparr>)"

definition fresh_record :: "host_record \<Rightarrow> bool" where
  "fresh_record h \<longleftrightarrow>
     ip h = None
     \<and> (case attacks h of EDict atk \<Rightarrow> distinct (map fst atk) | EList xs \<Rightarrow> False)
     \<and> (case bugs h of EDict bgs \<Rightarrow> True | EList xs \<Rightarrow> False)"

text \<open>
  Example data: a \<^verbatim>\<open>json.dump\<close> that fails on the per-host results only, four report
  files, and the result map that the run over them hands to the grouped serializer.
\<close>

definition failing_dump :: "payload \<Rightarrow> string option" where
  "failing_dump p = (case p of Hosts r \<Rightarrow> None | Table t \<Rightarrow> Some ''{}'')"

definition demo_files :: "(string \<times> string) list" where
  "demo_files =
     [(''10.0.0.1-443-Acme-Box1.txt'', ''Heartbleed : true''),
      (''10.0.0.2-443-Acme-Box2.txt'', ''Heartbleed : true'' @ [CHR 0x0A] @ ''Logjam : true''),
      (''10.0.0.3-443-Acme-Box2.txt'', ''Heartbleed : true''),
      (''10.0.0.4-8443-Bolt_Inc-Gate.txt'', ''Logjam : true'')]"

definition demo_results :: results where
  "demo_results =
     [(''10.0.0.1'',
       \<lparr>vendor = ''Acme'', product = ''Box1'', port = ''443'',
        attacks = EList [''Heartbleed''], bugs = EList [],
        vulnerabilities = [''CVE-2014-0160'', ''CVE-2015-0204'', ''CVE-2016-2107''],
        ip = Some ''10.0.0.1''\<rparr>),
      (''10.0.0.2'',
       \<lparr>vendor = ''Acme'', product = ''Box2'', port = ''443'',
        attacks = EList [''Logjam'', ''Heartbleed''], bugs = EList [],
        vulnerabilities = [], ip = Some ''10.0.0.2''\<rparr>),
      (''10.0.0.3'',
       \<lparr>vendor = ''Acme'', product = ''Box2'', port = ''443'',
        attacks = EList [''Heartbleed''], bugs = EList [],
        vulnerabilities = [], ip = Some ''10.0.0.3''\<rparr>),
      (''10.0.0.4'',
       \<lparr>vendor = ''Bolt Inc'', product = ''Gate'', port = ''8443'',
        attacks = EList [''Logjam''], bugs = EList [],
        vulnerabilities = [], ip = Some ''10.0.0.4''\<rparr>)]"

text \<open>
  Six report files for two vendors with the same two products: Acme has Box1 on one host
  and Box2 on two, Bolt has Box1 on two hosts and Box2 on one. \<open>swap_hosts\<close> are the
  records of the run over them, as the grouped serializer receives them.
\<close>

definition swap_files :: "(string \<times> string) list" where
  "swap_files =
     [(''10.0.0.1-443-Acme-Box1.txt'', ''Heartbleed : true''),
      (''10.0.0.2-443-Acme-Box2.txt'', ''Heartbleed : true''),
      (''10.0.0.3-443-Acme-Box2.txt'', ''Heartbleed : true''),
      (''10.0.0.4-443-Bolt-Box1.txt'', ''Heartbleed : true''),
      (''10.0.0.5-443-Bolt-Box1.txt'', ''Heartbleed : true''),
      (''10.0.0.6-443-Bolt-Box2.txt'', ''Heartbleed : true'')]"

definition swap_hosts :: "host_record list" where
  "swap_hosts =
     map (\<lambda>(a, v, p). \<lparr>vendor = v, product = p, port = ''443'', attacks = EList [''Heartbleed''],
                        bugs = EList [], vulnerabilities = [], ip = Some a\<rparr>)
       [(''10.0.0.1'', ''Acme'', ''Box1''), (''10.0.0.2'', ''Acme'', ''Box2''),
        (''10.0.0.3'', ''Acme'', ''Box2''), (''10.0.0.4'', ''Bolt'', ''Box1''),
        (''10.0.0.5'', ''Bolt'', ''Box1''), (''10.0.0.6'', ''Bolt'', ''Box2'')]"

text \<open>
  The decoder, in the words of the specification. \<open>name_text\<close> is the text that a
  catalog name stands for when it is read as a regular expression (an escaped character
  stands for itself). \<open>entry_match l s v\<close>: the text \<open>s\<close> begins with \<open>l\<close>, then white
  space, a colon, a blank and the value \<open>v\<close>, a run of word characters that ends there.
  \<open>first_value l text v\<close>: the first place of the text where such a match begins
  gives the value \<open>v\<close>. The place need not be the beginning of a line.
  \<open>entry_value\<close> computes the value matched at the beginning of a text.
\<close>

fun name_text :: "string \<Rightarrow> string" where
  "name_text [] = []"
| "name_text [c] = [c]"
| "name_text (c # d # ds) = (if c = CHR 0x5C then d # name_text ds else c # name_text (d # ds))"

definition entry_match :: "string \<Rightarrow> string \<Rightarrow> string \<Rightarrow> bool" where
  "entry_match l s v \<longleftrightarrow>
     (\<exists>ws rest. s = l @ ws @ '': '' @ v @ rest
        \<and> ws \<noteq> [] \<and> (\<forall>c\<in>set ws. is_space c)
        \<and> v \<noteq> [] \<and> (\<forall>c\<in>set v. is_word c)
        \<and> (rest = [] \<or> \<not> is_word (hd rest)))"

definition first_value :: "string \<Rightarrow> string \<Rightarrow> string \<Rightarrow> bool" where
  "first_value l text v \<longleftrightarrow>
     (\<exists>i\<le>length text. entry_match l (drop i text) v
        \<and> (\<forall>j<i. \<forall>w. \<not> entry_match l (drop j text) w))"

definition entry_value :: "string \<Rightarrow> string \<Rightarrow> string option" where
  "entry_value l s =
     (if take (length l) s = l
      then (let s1 = drop (length l) s; ws = takeWhile is_space s1
            in if ws = [] then None
               else (case drop (length ws) s1 of
                       c # d # s2 \<Rightarrow>
                         if c = CHR '':'' \<and> d = CHR '' '' \<and> takeWhile is_word s2 \<noteq> []
                         then Some (takeWhile is_word s2) else None
                     | _ \<Rightarrow> None))
      else None)"

text \<open>The one catalog name with escaped characters, and a report text.\<close>

definition CS_LENGTH :: string where
  "CS_LENGTH = ''CS Length Intolerant '' @ [CHR 0x5C] @ ''(>512 Byte'' @ [CHR 0x5C] @ '')''"

definition demo_report :: string where
  "demo_report =
     ''Heartbleed : true'' @ [CHR 0x0A] @ ''Heartbleed : false'' @ [CHR 0x0A]
     @ ''Logjam : True'' @ [CHR 0x0A] @ ''Sweet 32 : 1'' @ [CHR 0x0A]
     @ ''CS Length Intolerant (>512 Byte) : true''"

text \<open>
  A file name of the form \<^verbatim>\<open><ipv4>-<port>-<vendor>-<product>.txt\<close>, in the words of the
  specification: the whole name is an address of four runs of decimal digits separated by
  dots, a hyphen, a port of decimal digits, a hyphen, a vendor of word characters
  (letters, digits and the underscore), a hyphen, a product and the ending \<^verbatim>\<open>.txt\<close>.
  The reading is a generous one: the numbers are not bounded, and the product is any
  non-empty text without a newline.
\<close>

definition digits :: "string \<Rightarrow> bool" where
  "digits s \<longleftrightarrow> s \<noteq> [] \<and> (\<forall>c\<in>set s. is_digit c)"

definition report_file_name :: "string \<Rightarrow> bool" where
  "report_file_name name \<longleftrightarrow>
     (\<exists>a b c d p v pr.
        name = a @ ''.'' @ b @ ''.'' @ c @ ''.'' @ d @ ''-'' @ p @ ''-'' @ v @ ''-'' @ pr @ ''.txt''
        \<and> digits a \<and> digits b \<and> digits c \<and> digits d \<and> digits p
        \<and> v \<noteq> [] \<and> (\<forall>x\<in>set v. is_word x)
        \<and> pr \<noteq> [] \<and> (\<forall>x\<in>set pr. any_char x))"

section \<open>Properties of the Frequency Aggregator\<close>

lemma sum_counter_add:
  "sum_list (map snd (counter_add x c)) = Suc (sum_list (map snd c))"
  unfolding counter_add_def
  by (induction c) (auto split: option.splits)

lemma sum_fold_counter_add:
  "sum_list (map snd (fold counter_add xs c)) = sum_list (map snd c) + length xs"
  by (induction xs arbitrary: c) (simp_all add: sum_counter_add)

lemma sum_Counter: "sum_list (map snd (Counter xs)) = length xs"
  by (simp add: Counter_def sum_fold_counter_add)

lemma mset_py_sorted_reverse: "mset (py_sorted_reverse key xs) = mset xs"
  by (simp add: py_sorted_reverse_def)

lemma sum_py_sorted_reverse:
  "sum_list (map f (py_sorted_reverse key xs)) = sum_list (map (f :: 'a \<Rightarrow> nat) xs)"
proof -
  have "mset (map f (py_sorted_reverse key xs)) = mset (map f xs)"
    by (simp add: mset_py_sorted_reverse)
  then show ?thesis
    by (metis sum_mset_sum_list)
qed

lemma py_sorted_reverse_descending:
  "sorted_wrt (\<lambda>a b. a \<ge> b) (map key (py_sorted_reverse key xs))"
proof -
  have "sorted (map key (sort_key key (rev xs)))"
    by (rule sorted_sort_key)
  then show ?thesis
    by (simp add: py_sorted_reverse_def rev_map [symmetric] sorted_wrt_rev)
qed

lemma traverse_total: "traverse (\<lambda>x. Inr (g x)) xs = Inr (map g xs)"
  by (induction xs) simp_all

lemma count_unique_entities_eq:
  assumes "\<And>h. get_entities ent_type h = Some (g h)"
  shows "count_unique_entities results ent_type =
         Inr (py_sorted_reverse snd (Counter (concat (map g (map snd results)))))"
  by (simp add: count_unique_entities_def assms traverse_total)

lemma count_unique_entities_props:
  assumes "\<And>h. get_entities ent_type h = Some (g h)"
  shows "\<exists>t. count_unique_entities results ent_type = Inr t
           \<and> sum_list (map snd t) = sum_list (map (\<lambda>h. length (g h)) (map snd results))
           \<and> sorted_wrt (\<lambda>a b. a \<ge> b) (map snd t)"
proof -
  let ?t = "py_sorted_reverse snd (Counter (concat (map g (map snd results))))"
  have eq: "count_unique_entities results ent_type = Inr ?t"
    using assms by (rule count_unique_entities_eq)
  have "sum_list (map snd ?t) = length (concat (map g (map snd results)))"
    by (simp add: sum_py_sorted_reverse sum_Counter)
  also have "\<dots> = sum_list (map (\<lambda>h. length (g h)) (map snd results))"
    by (simp add: length_concat comp_def)
  finally have total:
    "sum_list (map snd ?t) = sum_list (map (\<lambda>h. length (g h)) (map snd results))" .
  have "sorted_wrt (\<lambda>a b. a \<ge> b) (map snd ?t)"
    by (rule py_sorted_reverse_descending)
  with eq total show ?thesis by blast
qed

text \<open>
  Claim C4. For every result map and each of the fields \<^verbatim>\<open>attacks\<close>, \<^verbatim>\<open>bugs\<close> and
  \<^verbatim>\<open>vulnerabilities\<close>, \<open>count_unique_entities\<close> returns a table (it does not raise);
  the counts of the table add up to the number of entries of that field over all hosts;
  and the counts stand in descending order.
\<close>

theorem count_unique_entities_sum_sorted:
  "(\<exists>t. count_unique_entities results ''attacks'' = Inr t
        \<and> sum_list (map snd t)
            = sum_list (map (\<lambda>h. length (entity_names (attacks h))) (map snd results))
        \<and> sorted_wrt (\<lambda>a b. a \<ge> b) (map snd t))
   \<and> (\<exists>t. count_unique_entities results ''bugs'' = Inr t
        \<and> sum_list (map snd t)
            = sum_list (map (\<lambda>h. length (entity_names (bugs h))) (map snd results))
        \<and> sorted_wrt (\<lambda>a b. a \<ge> b) (map snd t))
   \<and> (\<exists>t. count_unique_entities results ''vulnerabilities'' = Inr t
        \<and> sum_list (map snd t)
            = sum_list (map (\<lambda>h. length (vulnerabilities h)) (map snd results))
        \<and> sorted_wrt (\<lambda>a b. a \<ge> b) (map snd t))"
proof (intro conjI)
  show "\<exists>t. count_unique_entities results ''attacks'' = Inr t
        \<and> sum_list (map snd t)
            = sum_list (map (\<lambda>h. length (entity_names (attacks h))) (map snd results))
        \<and> sorted_wrt (\<lambda>a b. a \<ge> b) (map snd t)"
    by (rule count_unique_entities_props) (simp add: get_entities_def)
  show "\<exists>t. count_unique_entities results ''bugs'' = Inr t
        \<and> sum_list (map snd t)
            = sum_list (map (\<lambda>h. length (entity_names (bugs h))) (map snd results))
        \<and> sorted_wrt (\<lambda>a b. a \<ge> b) (map snd t)"
    by (rule count_unique_entities_props) (simp add: get_entities_def)
  show "\<exists>t. count_unique_entities results ''vulnerabilities'' = Inr t
        \<and> sum_list (map snd t)
            = sum_list (map (\<lambda>h. length (vulnerabilities h)) (map snd results))
        \<and> sorted_wrt (\<lambda>a b. a \<ge> b) (map snd t)"
    by (rule count_unique_entities_props) (simp add: get_entities_def)
qed

section \<open>Properties of the Vulnerability Resolver\<close>

lemma set_order_ok_remdups: "set_order_ok remdups"
  by (simp add: set_order_ok_def)

lemma list_set_ok:
  assumes "set_order_ok set_order"
  shows "distinct (list_set set_order xs)" and "set (list_set set_order xs) = set xs"
  using assms by (simp_all add: set_order_ok_def list_set_def first_occurrences_def)

lemma set_source_ids: "set (source_ids src) = source_identifiers src"
  by (auto simp: source_ids_def source_identifiers_def dom_map_of_conv_image_fst
           split: option.splits source.splits)

text \<open>
  Claim C7. Whatever order the set iteration has: for an ip that is not in the dataset,
  and for an ip whose entry has no \<^verbatim>\<open>vulnerabilities\<close> field, the resolver returns the
  empty list; otherwise it returns a list without repetitions whose elements are those
  of the two sub-sources together, a mapping contributing its keys and a list its
  elements.
\<close>

theorem search_vulnerabilities_union:
  assumes "set_order_ok set_order"
  shows "(hosts host_ip = None \<longrightarrow> search_vulnerabilities set_order hosts host_ip = [])
    \<and> (\<forall>entry. hosts host_ip = Some entry \<and> vulnerabilities_field entry = None
          \<longrightarrow> search_vulnerabilities set_order hosts host_ip = [])
    \<and> (\<forall>entry vulns. hosts host_ip = Some entry \<and> vulnerabilities_field entry = Some vulns
          \<longrightarrow> distinct (search_vulnerabilities set_order hosts host_ip)
            \<and> set (search_vulnerabilities set_order hosts host_ip)
                = source_identifiers (map_of vulns ''shodan_vulnerabilities'')
                  \<union> source_identifiers (map_of vulns ''vulners_vulnerabilities''))"
proof (intro conjI allI impI)
  show "search_vulnerabilities set_order hosts host_ip = []" if "hosts host_ip = None"
    using that by (simp add: search_vulnerabilities_def)
next
  fix entry
  assume "hosts host_ip = Some entry \<and> vulnerabilities_field entry = None"
  then show "search_vulnerabilities set_order hosts host_ip = []"
    by (simp add: search_vulnerabilities_def)
next
  fix entry vulns
  assume a: "hosts host_ip = Some entry \<and> vulnerabilities_field entry = Some vulns"
  then have truthy: "entry_truthy entry"
    by (simp add: entry_truthy_def)
  note ok = list_set_ok [OF assms]
  show "distinct (search_vulnerabilities set_order hosts host_ip)"
    using a truthy by (simp add: search_vulnerabilities_def Let_def ok)
  show "set (search_vulnerabilities set_order hosts host_ip)
          = source_identifiers (map_of vulns ''shodan_vulnerabilities'')
            \<union> source_identifiers (map_of vulns ''vulners_vulnerabilities'')"
  proof (cases "vulns = []")
    case True
    with a truthy show ?thesis
      by (simp add: search_vulnerabilities_def source_identifiers_def)
  next
    case False
    with a truthy show ?thesis
      by (simp add: search_vulnerabilities_def Let_def ok set_source_ids)
  qed
qed

theorem search_vulnerabilities_union_witness:
  "set_order_ok remdups
   \<and> set (search_vulnerabilities remdups demo_hosts ''10.0.0.1'')
       = {''CVE-2014-0160'', ''CVE-2015-0204'', ''CVE-2016-2107''}
   \<and> distinct (search_vulnerabilities remdups demo_hosts ''10.0.0.1'')
   \<and> search_vulnerabilities remdups demo_hosts ''10.0.0.2'' = []
   \<and> search_vulnerabilities remdups demo_hosts ''10.0.0.3'' = []"
proof -
  have ok: "set_order_ok remdups"
    by (rule set_order_ok_remdups)
  have e1: "demo_hosts ''10.0.0.1'' = Some \<lparr>vulnerabilities_field =
           Some [(''shodan_vulnerabilities'',
                  SDict [(''CVE-2014-0160'', 7), (''CVE-2015-0204'', 4)]),
                 (''vulners_vulnerabilities'',
                  SList [''CVE-2015-0204'', ''CVE-2016-2107''])],
         entry_fields = [(''attacks'', Other 0), (''country'', Other 1)]\<rparr>"
    by (simp add: demo_hosts_def)
  have e2: "demo_hosts ''10.0.0.2'' = Some \<lparr>vulnerabilities_field = None, entry_fields = []\<rparr>"
    by (simp add: demo_hosts_def)
  have e3: "demo_hosts ''10.0.0.3'' = None"
    by (simp add: demo_hosts_def)
  note th = search_vulnerabilities_union [OF ok, of demo_hosts]
  from th [of "''10.0.0.1''"] e1
  have a: "distinct (search_vulnerabilities remdups demo_hosts ''10.0.0.1'')"
    and b: "set (search_vulnerabilities remdups demo_hosts ''10.0.0.1'')
       = {''CVE-2014-0160'', ''CVE-2015-0204'', ''CVE-2016-2107''}"
    by (auto simp: source_identifiers_def)
  from th [of "''10.0.0.2''"] e2
  have c: "search_vulnerabilities remdups demo_hosts ''10.0.0.2'' = []"
    by simp
  from th [of "''10.0.0.3''"] e3
  have d: "search_vulnerabilities remdups demo_hosts ''10.0.0.3'' = []"
    by simp
  from ok a b c d show ?thesis by blast
qed

section \<open>Properties of the Ingestion Driver\<close>

text \<open>
  The file name pattern at work. It is searched anywhere in the name and its dots are not
  escaped, so it takes the first hyphen-free run of word characters after the port as the
  vendor, leaves further hyphens to the product, and also accepts a first group that is no
  dotted address.
\<close>

lemma filename_examples:
  "findall filename_pattern filename_groups ''1.2.3.4-443-Acme_Corp-Widget_X.txt''
     = [[''1.2.3.4'', ''443'', ''Acme_Corp'', ''Widget_X'']]"
  "findall filename_pattern filename_groups ''10.0.0.1-443-a-b-c.txt.txt''
     = [[''10.0.0.1'', ''443'', ''a'', ''b-c.txt'']]"
  "findall filename_pattern filename_groups ''1234567-80-v-p.txt''
     = [[''1234567'', ''80'', ''v'', ''p'']]"
  "findall filename_pattern filename_groups ''README.txt'' = []"
  by code_simp+

lemma filename_decoding_example:
  "map_option (\<lambda>x. (fst x, port (fst (snd x)), vendor (fst (snd x)), product (fst (snd x))))
     (file_record remdups demo_hosts (''1.2.3.4-443-Acme_Corp-Widget_X.txt'', ''Logjam : false''))
   = Some (''1.2.3.4'', ''443'', ''Acme Corp'', ''Widget X'')"
  by code_simp

lemma parse_attacks_error_iff:
  "parse_attacks text = DecodeError \<longleftrightarrow>
     contains text ''Cannot reach the Server''
     \<or> contains text ''Server does not seem to support SSL''"
  by (simp add: parse_attacks_def)

lemma file_record_None_iff:
  "file_record set_order hosts (name, text) = None \<longleftrightarrow>
     parse_attacks text = DecodeError \<or> findall filename_pattern filename_groups name = []"
  by (auto simp: file_record_def split: decoded.splits list.splits)

lemma process_file_skip:
  "file_record set_order (snd st) file = None \<Longrightarrow> process_file set_order file st = st"
  by (simp add: process_file_def)

text \<open>
  The loop over the entries of the directory: an entry that was read is a step of
  \<open>process_file\<close>, and an entry that cannot be read ends the loop with its exception.
\<close>

lemma load_entries_append:
  "load_entries set_order (xs @ ys) st =
     (case load_entries set_order xs st of
        (Some e, st') \<Rightarrow> (Some e, st')
      | (None, st') \<Rightarrow> load_entries set_order ys st')"
  by (induction set_order xs st rule: load_entries.induct) simp_all

lemma load_entries_readable:
  "load_entries set_order (map readable files) st = (None, fold (process_file set_order) files st)"
  by (induction files arbitrary: st) (simp_all add: readable_def)

lemma load_tls_scan_results_dir_readable:
  "load_tls_scan_results_dir set_order dump (map readable files) hosts fs =
     (case load_tls_scan_results set_order dump files hosts fs of
        (hosts', outcome, fs') \<Rightarrow> (hosts', Inr outcome, fs'))"
  by (simp add: load_tls_scan_results_dir_def load_entries_readable load_tls_scan_results_def
        load_files_def Let_def split: prod.splits)

lemma load_entries_skip:
  fixes st :: "results \<times> 'v hosts"
  assumes "\<And>s :: results \<times> 'v hosts. process_file set_order (name, text) s = s"
  shows "load_entries set_order (before @ (name, Inr text) # after) st
           = load_entries set_order (before @ after) st"
  by (simp add: load_entries_append assms split: prod.splits option.splits)

lemma load_entries_raise:
  "load_entries set_order before st = (None, st') \<Longrightarrow>
   load_entries set_order (before @ (name, Inl e) # after) st = (Some e, st')"
  by (simp add: load_entries_append)

lemma process_file_unusable:
  assumes "contains text ''Cannot reach the Server''
           \<or> contains text ''Server does not seem to support SSL''
           \<or> findall filename_pattern filename_groups name = []"
  shows "process_file set_order (name, text) st = st"
  using assms
  by (intro process_file_skip) (auto simp: file_record_None_iff parse_attacks_error_iff)

lemma load_tls_scan_results_dir_raise:
  "load_tls_scan_results_dir set_order dump (map readable files @ (name, Inl e) # after) hosts fs
     = (snd (load_files set_order files hosts), Inl e, fs)"
  by (simp add: load_tls_scan_results_dir_def load_entries_append load_entries_readable
        load_files_def split: prod.splits)

text \<open>
  The file name pattern and the form \<^verbatim>\<open><ipv4>-<port>-<vendor>-<product>.txt\<close>. The
  pattern finds a match in every name of that form, so a name in which it finds none is
  not of that form. The converse fails: the pattern is searched anywhere in the name and
  its dots stand for any character.
\<close>

lemma greedy_None_iff:
  "greedy f k = None \<longleftrightarrow> (\<forall>n. 0 < n \<and> n \<le> k \<longrightarrow> f n = None)"
  by (induction k) (auto simp: le_Suc_eq split: option.splits)

lemma match_here_once:
  "P c \<Longrightarrow> match_here p cs \<noteq> None \<Longrightarrow> match_here ((P, Once) # p) (c # cs) \<noteq> None"
  by simp

lemma match_here_lit_char:
  "match_here p cs \<noteq> None \<Longrightarrow> match_here (lit c # p) (c # cs) \<noteq> None"
  by (simp add: lit_def)

lemma match_here_many:
  assumes "r \<noteq> []" and "\<forall>c\<in>set r. P c" and "match_here p s \<noteq> None"
  shows "match_here ((P, Many) # p) (r @ s) \<noteq> None"
proof -
  have "takeWhile P (r @ s) = r @ takeWhile P s"
    using assms(2) by simp
  then have "length r \<le> length (takeWhile P (r @ s))"
    by simp
  moreover have "0 < length r"
    using assms(1) by simp
  moreover have "match_here p (drop (length r) (r @ s)) \<noteq> None"
    using assms(3) by simp
  ultimately show ?thesis
    by (auto simp: greedy_None_iff)
qed

lemma report_file_name_matched:
  assumes "report_file_name name"
  shows "findall filename_pattern filename_groups name \<noteq> []"
proof -
  from assms obtain a b c d p v pr where
    name: "name = a @ CHR ''.'' # b @ CHR ''.'' # c @ CHR ''.'' # d @ CHR ''-'' # p
                    @ CHR ''-'' # v @ CHR ''-'' # pr @ ''.txt''"
    and d: "digits a" "digits b" "digits c" "digits d" "digits p"
    and v: "v \<noteq> []" "\<forall>x\<in>set v. is_word x"
    and pr: "pr \<noteq> []" "\<forall>x\<in>set pr. any_char x"
    unfolding report_file_name_def by auto
  have "match_here filename_pattern name \<noteq> None"
    unfolding filename_pattern_def name
    using d v pr
    by (intro match_here_many match_here_once match_here_lit_char)
       (simp_all add: digits_def any_char_def)
  then obtain ls where "match_here filename_pattern name = Some ls"
    by auto
  then have "re_search filename_pattern name = Some (0, ls)"
    by (cases name) simp_all
  then show ?thesis
    by (subst findall.simps) simp
qed

lemma not_report_file_name_no_digit:
  assumes "name \<noteq> [] \<Longrightarrow> \<not> is_digit (hd name)"
  shows "\<not> report_file_name name"
proof
  assume "report_file_name name"
  then obtain a r where "name = a @ r" "digits a"
    unfolding report_file_name_def by blast
  then have "name \<noteq> []" "is_digit (hd name)"
    by (auto simp: digits_def)
  with assms show False by simp
qed

lemma report_file_name_dots:
  assumes "report_file_name name"
  shows "4 \<le> length (filter (\<lambda>x. x = CHR ''.'') name)"
proof -
  from assms obtain a b c d p v pr where
    "name = a @ ''.'' @ b @ ''.'' @ c @ ''.'' @ d @ ''-'' @ p @ ''-'' @ v @ ''-'' @ pr @ ''.txt''"
    unfolding report_file_name_def by blast
  then show ?thesis
    by simp
qed

text \<open>
  Claim C3 as stated fails in two ways. A file whose name is not of the form
  \<^verbatim>\<open><ipv4>-<port>-<vendor>-<product>.txt\<close> is ingested when the pattern finds a match
  inside the name: \<^verbatim>\<open>old-10.0.0.5-443-Acme-Box1.txt.bak\<close> gives the result map a record
  under \<^verbatim>\<open>10.0.0.5\<close> and the attack frequency a count, and \<^verbatim>\<open>1234567-80-v-p.txt\<close> gives
  a record under \<^verbatim>\<open>1234567\<close>. And an entry that cannot be read is not passed over,
  whatever its name: a subdirectory \<^verbatim>\<open>archive\<close>, in whose name the pattern finds nothing,
  makes the run raise \<^verbatim>\<open>IsADirectoryError\<close> and write no output, where the run without
  that entry ends normally and writes its files.
\<close>

theorem misnamed_file_ingested_unreadable_entry_raises:
  "\<not> report_file_name ''old-10.0.0.5-443-Acme-Box1.txt.bak''
   \<and> map fst (fst (load_files remdups
        [(''old-10.0.0.5-443-Acme-Box1.txt.bak'', ''Heartbleed : true'')] demo_hosts))
       = [''10.0.0.5'']
   \<and> count_unique_entities (fst (load_files remdups
        [(''old-10.0.0.5-443-Acme-Box1.txt.bak'', ''Heartbleed : true'')] demo_hosts)) ''attacks''
       = Inr [(''Heartbleed'', 1)]
   \<and> \<not> report_file_name ''1234567-80-v-p.txt''
   \<and> map fst (fst (load_files remdups
        [(''1234567-80-v-p.txt'', ''Heartbleed : true'')] demo_hosts)) = [''1234567'']
   \<and> \<not> report_file_name ''archive''
   \<and> findall filename_pattern filename_groups ''archive'' = []
   \<and> fst (snd (load_tls_scan_results_dir remdups (\<lambda>p. Some ''{}'')
        [(''10.0.0.1-443-Acme-Box1.txt'', Inr ''Heartbleed : true''),
         (''archive'', Inl IsADirectoryError)] demo_hosts Map.empty))
       = Inl IsADirectoryError
   \<and> snd (snd (load_tls_scan_results_dir remdups (\<lambda>p. Some ''{}'')
        [(''10.0.0.1-443-Acme-Box1.txt'', Inr ''Heartbleed : true''),
         (''archive'', Inl IsADirectoryError)] demo_hosts Map.empty))
       = Map.empty
   \<and> fst (snd (load_tls_scan_results_dir remdups (\<lambda>p. Some ''{}'')
        [(''10.0.0.1-443-Acme-Box1.txt'', Inr ''Heartbleed : true'')] demo_hosts Map.empty))
       = Inr (Inr ())
   \<and> snd (snd (load_tls_scan_results_dir remdups (\<lambda>p. Some ''{}'')
        [(''10.0.0.1-443-Acme-Box1.txt'', Inr ''Heartbleed : true'')] demo_hosts Map.empty))
        FULL_RESULTS_JSON \<noteq> None"
proof -
  have n1: "\<not> report_file_name ''old-10.0.0.5-443-Acme-Box1.txt.bak''"
    by (rule not_report_file_name_no_digit) (simp add: is_digit_def)
  have n2: "\<not> report_file_name ''1234567-80-v-p.txt''"
    using report_file_name_dots [of "''1234567-80-v-p.txt''"] by auto
  have n3: "\<not> report_file_name ''archive''"
    by (rule not_report_file_name_no_digit) (simp add: is_digit_def)
  have i1: "map fst (fst (load_files remdups
        [(''old-10.0.0.5-443-Acme-Box1.txt.bak'', ''Heartbleed : true'')] demo_hosts))
       = [''10.0.0.5'']"
    by code_simp
  have c1: "count_unique_entities (fst (load_files remdups
        [(''old-10.0.0.5-443-Acme-Box1.txt.bak'', ''Heartbleed : true'')] demo_hosts)) ''attacks''
       = Inr [(''Heartbleed'', 1)]"
    by code_simp
  have i2: "map fst (fst (load_files remdups
        [(''1234567-80-v-p.txt'', ''Heartbleed : true'')] demo_hosts)) = [''1234567'']"
    by code_simp
  have f3: "findall filename_pattern filename_groups ''archive'' = []"
    by code_simp
  have r1: "fst (snd (load_tls_scan_results_dir remdups (\<lambda>p. Some ''{}'')
        [(''10.0.0.1-443-Acme-Box1.txt'', Inr ''Heartbleed : true''),
         (''archive'', Inl IsADirectoryError)] demo_hosts Map.empty))
       = Inl IsADirectoryError"
    by (simp add: load_tls_scan_results_dir_def split: prod.splits)
  have r2: "snd (snd (load_tls_scan_results_dir remdups (\<lambda>p. Some ''{}'')
        [(''10.0.0.1-443-Acme-Box1.txt'', Inr ''Heartbleed : true''),
         (''archive'', Inl IsADirectoryError)] demo_hosts Map.empty))
       = Map.empty"
    by (simp add: load_tls_scan_results_dir_def split: prod.splits)
  have r3: "fst (snd (load_tls_scan_results_dir remdups (\<lambda>p. Some ''{}'')
        [(''10.0.0.1-443-Acme-Box1.txt'', Inr ''Heartbleed : true'')] demo_hosts Map.empty))
       = Inr (Inr ())"
    by code_simp
  have r4: "snd (snd (load_tls_scan_results_dir remdups (\<lambda>p. Some ''{}'')
        [(''10.0.0.1-443-Acme-Box1.txt'', Inr ''Heartbleed : true'')] demo_hosts Map.empty))
        FULL_RESULTS_JSON \<noteq> None"
    by code_simp
  show ?thesis
    using n1 n2 n3 i1 c1 i2 f3 r1 r2 r3 r4 by (intro conjI)
qed

text \<open>
  Claim C3, amended. A file that was opened and read, and whose text holds one of the two
  failure markers or in whose name the file name pattern finds no match, is passed over
  without an exception: the step of the loop leaves the result map and the caller's
  dataset as they were, a directory of that entry alone is read to its end, and the
  whole run (the dataset it leaves, its outcome and every file it writes) is the run
  without that entry, whatever the other entries are. An entry that cannot be opened or
  read is not passed over, whatever its name: the loop ends there with the exception, and
  the run leaves the dataset as the entries before it made it and writes nothing.
\<close>

theorem readable_unusable_file_contributes_nothing:
  assumes "contains text ''Cannot reach the Server''
           \<or> contains text ''Server does not seem to support SSL''
           \<or> findall filename_pattern filename_groups name = []"
  shows "process_file set_order (name, text) st = st
     \<and> load_entries set_order [(name, Inr text)] st = (None, st)
     \<and> load_entries set_order (before @ (name, Inr text) # after) st
         = load_entries set_order (before @ after) st
     \<and> load_tls_scan_results_dir set_order dump (before @ (name, Inr text) # after) hosts fs
         = load_tls_scan_results_dir set_order dump (before @ after) hosts fs
     \<and> load_files set_order (files @ (name, text) # files') hosts
         = load_files set_order (files @ files') hosts
     \<and> load_tls_scan_results set_order dump (files @ (name, text) # files') hosts fs
         = load_tls_scan_results set_order dump (files @ files') hosts fs
     \<and> load_entries set_order [(entry, Inl e)] st = (Some e, st)
     \<and> load_tls_scan_results_dir set_order dump (map readable files @ (entry, Inl e) # after)
           hosts fs
         = (snd (load_files set_order files hosts), Inl e, fs)"
proof -
  note skip = process_file_unusable [OF assms]
  have entries: "load_entries set_order (before @ (name, Inr text) # after) s
                 = load_entries set_order (before @ after) s" for s :: "results \<times> 'c hosts"
    by (rule load_entries_skip) (rule skip)
  have files: "load_files set_order (files @ (name, text) # files') hosts
                 = load_files set_order (files @ files') hosts"
    by (simp add: load_files_def skip)
  have run: "load_tls_scan_results_dir set_order dump (before @ (name, Inr text) # after) hosts fs
               = load_tls_scan_results_dir set_order dump (before @ after) hosts fs"
    by (simp add: entries load_tls_scan_results_dir_def)
  have run': "load_tls_scan_results set_order dump (files @ (name, text) # files') hosts fs
                = load_tls_scan_results set_order dump (files @ files') hosts fs"
    by (simp add: files load_tls_scan_results_def)
  show ?thesis
    by (simp only: skip entries files run run' load_tls_scan_results_dir_raise
          load_entries.simps simp_thms)
qed

theorem readable_unusable_file_contributes_nothing_witness:
  "contains ''Cannot reach the Server at 10.0.0.9'' ''Cannot reach the Server''
   \<and> findall filename_pattern filename_groups ''notes.txt'' = []
   \<and> load_tls_scan_results_dir remdups (\<lambda>p. Some ''{}'')
        [(''10.0.0.1-443-Acme-Box1.txt'', Inr ''Heartbleed : true''),
         (''10.0.0.9-443-Acme-Box9.txt'', Inr ''Cannot reach the Server at 10.0.0.9''),
         (''notes.txt'', Inr ''Heartbleed : true'')]
        demo_hosts Map.empty
     = load_tls_scan_results_dir remdups (\<lambda>p. Some ''{}'')
        [(''10.0.0.1-443-Acme-Box1.txt'', Inr ''Heartbleed : true'')]
        demo_hosts Map.empty
   \<and> fst (snd (load_tls_scan_results_dir remdups (\<lambda>p. Some ''{}'')
        [(''10.0.0.1-443-Acme-Box1.txt'', Inr ''Heartbleed : true''),
         (''10.0.0.9-443-Acme-Box9.txt'', Inr ''Cannot reach the Server at 10.0.0.9''),
         (''notes.txt'', Inr ''Heartbleed : true'')]
        demo_hosts Map.empty)) = Inr (Inr ())
   \<and> fst (snd (load_tls_scan_results_dir remdups (\<lambda>p. Some ''{}'')
        [(''10.0.0.1-443-Acme-Box1.txt'', Inr ''Heartbleed : true''),
         (''notes'', Inl IsADirectoryError),
         (''10.0.0.2-443-Acme-Box2.txt'', Inr ''Heartbleed : true'')]
        demo_hosts Map.empty)) = Inl IsADirectoryError"
proof -
  let ?good = "(''10.0.0.1-443-Acme-Box1.txt'', Inr ''Heartbleed : true'') :: dir_entry"
  let ?down = "(''10.0.0.9-443-Acme-Box9.txt'', Inr ''Cannot reach the Server at 10.0.0.9'')
                 :: dir_entry"
  let ?notes = "(''notes.txt'', Inr ''Heartbleed : true'') :: dir_entry"
  let ?next = "(''10.0.0.2-443-Acme-Box2.txt'', Inr ''Heartbleed : true'') :: dir_entry"
  let ?run = "\<lambda>entries. load_tls_scan_results_dir remdups (\<lambda>p. Some ''{}'') entries
                 demo_hosts Map.empty"
  have m: "contains ''Cannot reach the Server at 10.0.0.9'' ''Cannot reach the Server''"
    by simp
  have f: "findall filename_pattern filename_groups ''notes.txt'' = []"
    by code_simp
  have "?run ([?good, ?down] @ ?notes # []) = ?run ([?good, ?down] @ [])"
    using readable_unusable_file_contributes_nothing [of "''Heartbleed : true''" "''notes.txt''"] f
    by blast
  also have "\<dots> = ?run ([?good] @ ?down # [])"
    by simp
  also have "\<dots> = ?run ([?good] @ [])"
    using readable_unusable_file_contributes_nothing
            [of "''Cannot reach the Server at 10.0.0.9''" "''10.0.0.9-443-Acme-Box9.txt''"] m
    by blast
  finally have eq: "?run [?good, ?down, ?notes] = ?run [?good]"
    by simp
  have ok: "fst (snd (?run [?good])) = Inr (Inr ())"
    by code_simp
  have "?run (map readable [(''10.0.0.1-443-Acme-Box1.txt'', ''Heartbleed : true'')]
                @ (''notes'', Inl IsADirectoryError) # [?next])
          = (snd (load_files remdups [(''10.0.0.1-443-Acme-Box1.txt'', ''Heartbleed : true'')]
                    demo_hosts), Inl IsADirectoryError, Map.empty)"
    using readable_unusable_file_contributes_nothing [of "''Heartbleed : true''" "''notes.txt''"] f
    by blast
  then have raise: "fst (snd (?run [?good, (''notes'', Inl IsADirectoryError), ?next]))
                      = Inl IsADirectoryError"
    by (simp add: readable_def)
  show ?thesis
    using m f eq ok raise by simp
qed

lemma update_entry_vulns [simp]:
  "vulnerabilities_field (update_entry atk bgs e) = vulnerabilities_field e"
  by (simp add: update_entry_def Let_def)

lemma update_entry_truthy [simp]:
  "entry_truthy e \<Longrightarrow> entry_truthy (update_entry atk bgs e)"
  by (auto simp: update_entry_def Let_def entry_truthy_def dest: arg_cong [where f = "map fst"])

lemma update_entry_empty [simp]: "update_entry [] [] e = e"
  by (simp add: update_entry_def)

lemma map_of_update_entry:
  "map_of (entry_fields (update_entry atk bgs e)) k =
     (if k = ''bugs'' \<and> bgs \<noteq> [] then Some (Names bgs)
      else if k = ''attacks'' \<and> atk \<noteq> [] then Some (Names atk)
      else map_of (entry_fields e) k)"
  by (simp add: update_entry_def Let_def update_conv)

lemma process_file_hosts:
  "snd (process_file set_order file (res, hosts)) =
     (case file_record set_order hosts file of
        None \<Rightarrow> hosts
      | Some (a, r, atk, bgs) \<Rightarrow>
          (case hosts a of
             None \<Rightarrow> hosts
           | Some e \<Rightarrow> if entry_truthy e then hosts(a \<mapsto> update_entry atk bgs e) else hosts))"
  by (simp add: process_file_def split: option.splits prod.splits)

lemma process_file_results:
  "fst (process_file set_order file (res, hosts)) =
     (case file_record set_order hosts file of
        None \<Rightarrow> res
      | Some (a, r, atk, bgs) \<Rightarrow> if map_of res a = None then AList.update a r res else res)"
  by (cases "file_record set_order hosts file") (auto simp: process_file_def)

lemma dom_process_file:
  "dom (snd (process_file set_order file st)) = dom (snd st)"
  by (cases st) (auto simp: process_file_hosts split: option.splits prod.splits if_splits)

lemma dom_fold_process_file:
  "dom (snd (fold (process_file set_order) files st)) = dom (snd st)"
  by (induction files arbitrary: st) (simp_all add: dom_process_file)

lemma vuln_view_process_file:
  "vuln_view (snd (process_file set_order file st)) = vuln_view (snd st)"
  by (cases st) (auto simp: process_file_hosts vuln_view_def fun_eq_iff
                      split: option.splits prod.splits)

lemma vuln_view_fold_process_file:
  "vuln_view (snd (fold (process_file set_order) files st)) = vuln_view (snd st)"
  by (induction files arbitrary: st) (simp_all add: vuln_view_process_file)

lemma search_vulnerabilities_view:
  assumes "vuln_view h' = vuln_view h"
  shows "search_vulnerabilities set_order h' a = search_vulnerabilities set_order h a"
proof -
  from assms have "vuln_view h' a = vuln_view h a" by simp
  then show ?thesis
    by (auto simp: vuln_view_def search_vulnerabilities_def split: option.splits)
qed

lemma file_record_view:
  assumes "vuln_view h' = vuln_view h"
  shows "file_record set_order h' file = file_record set_order h file"
  by (simp add: file_record_def search_vulnerabilities_view [OF assms]
           split: decoded.splits list.splits)

text \<open>
  Claim C6, amended. Let a file decode to the attacks \<open>atk\<close> and the bugs \<open>bgs\<close>
  and its name to the ip \<open>g ! 0\<close>. If the dataset has no entry for the ip, or an entry
  that is an empty dict, the step leaves the dataset as it is. If it has a non-empty
  entry, the step replaces that entry by one with the same \<^verbatim>\<open>vulnerabilities\<close> field,
  whose \<^verbatim>\<open>attacks\<close> field is \<open>atk\<close> if \<open>atk\<close> is not empty and the old one otherwise, whose
  \<^verbatim>\<open>bugs\<close> field is \<open>bgs\<close> if \<open>bgs\<close> is not empty and the old one otherwise, and whose
  other fields are the old ones. Neither a step nor a whole run adds an ip to the dataset.
\<close>

theorem driver_overwrites_only_attacks_and_bugs:
  assumes "parse_attacks text = Decoded atk bgs"
      and "findall filename_pattern filename_groups name = g # gs"
  shows "(hosts (g ! 0) = None
            \<longrightarrow> snd (process_file set_order (name, text) (res, hosts)) = hosts)
     \<and> (\<forall>e. hosts (g ! 0) = Some e \<and> \<not> entry_truthy e
            \<longrightarrow> snd (process_file set_order (name, text) (res, hosts)) = hosts)
     \<and> (\<forall>e. hosts (g ! 0) = Some e \<and> entry_truthy e
            \<longrightarrow> (\<exists>e'. snd (process_file set_order (name, text) (res, hosts)) = hosts(g ! 0 \<mapsto> e')
                  \<and> vulnerabilities_field e' = vulnerabilities_field e
                  \<and> map_of (entry_fields e') ''attacks''
                      = (if atk \<noteq> [] then Some (Names atk) else map_of (entry_fields e) ''attacks'')
                  \<and> map_of (entry_fields e') ''bugs''
                      = (if bgs \<noteq> [] then Some (Names bgs) else map_of (entry_fields e) ''bugs'')
                  \<and> (\<forall>k. k \<noteq> ''attacks'' \<and> k \<noteq> ''bugs''
                        \<longrightarrow> map_of (entry_fields e') k = map_of (entry_fields e) k)
                  \<and> (atk = [] \<and> bgs = [] \<longrightarrow> e' = e)))
     \<and> dom (snd (process_file set_order (name, text) (res, hosts))) = dom hosts
     \<and> dom (snd (load_files set_order files hosts)) = dom hosts"
proof -
  obtain r where fr: "file_record set_order hosts (name, text) = Some (g ! 0, r, atk, bgs)"
    using assms by (simp add: file_record_def)
  have absent: "snd (process_file set_order (name, text) (res, hosts)) = hosts"
    if "hosts (g ! 0) = None"
    using that fr by (simp add: process_file_hosts)
  have falsy: "snd (process_file set_order (name, text) (res, hosts)) = hosts"
    if "hosts (g ! 0) = Some e \<and> \<not> entry_truthy e" for e
    using that fr by (simp add: process_file_hosts)
  have truthy: "\<exists>e'. snd (process_file set_order (name, text) (res, hosts)) = hosts(g ! 0 \<mapsto> e')
                  \<and> vulnerabilities_field e' = vulnerabilities_field e
                  \<and> map_of (entry_fields e') ''attacks''
                      = (if atk \<noteq> [] then Some (Names atk) else map_of (entry_fields e) ''attacks'')
                  \<and> map_of (entry_fields e') ''bugs''
                      = (if bgs \<noteq> [] then Some (Names bgs) else map_of (entry_fields e) ''bugs'')
                  \<and> (\<forall>k. k \<noteq> ''attacks'' \<and> k \<noteq> ''bugs''
                        \<longrightarrow> map_of (entry_fields e') k = map_of (entry_fields e) k)
                  \<and> (atk = [] \<and> bgs = [] \<longrightarrow> e' = e)"
    if "hosts (g ! 0) = Some e \<and> entry_truthy e" for e
  proof (intro exI [of _ "update_entry atk bgs e"] conjI)
    show "snd (process_file set_order (name, text) (res, hosts))
            = hosts(g ! 0 \<mapsto> update_entry atk bgs e)"
      using that fr by (simp add: process_file_hosts)
  qed (simp_all add: map_of_update_entry)
  have d1: "dom (snd (process_file set_order (name, text) (res, hosts))) = dom hosts"
    using dom_process_file [of set_order "(name, text)" "(res, hosts)"] by simp
  have d2: "dom (snd (load_files set_order files hosts)) = dom hosts"
    by (simp add: load_files_def dom_fold_process_file)
  from absent falsy truthy d1 d2 show ?thesis
    by blast
qed

theorem driver_overwrites_only_attacks_and_bugs_witness:
  "parse_attacks ''Heartbleed : true'' = Decoded [(''Heartbleed'', True)] []
   \<and> findall filename_pattern filename_groups ''10.0.0.1-443-Acme-Box1.txt''
       = [[''10.0.0.1'', ''443'', ''Acme'', ''Box1'']]
   \<and> (\<exists>e'. snd (process_file remdups (''10.0.0.1-443-Acme-Box1.txt'', ''Heartbleed : true'')
                 ([], demo_hosts)) = demo_hosts(''10.0.0.1'' \<mapsto> e')
          \<and> map_of (entry_fields e') ''attacks'' = Some (Names [(''Heartbleed'', True)])
          \<and> map_of (entry_fields e') ''bugs'' = None
          \<and> map_of (entry_fields e') ''country'' = Some (Other 1))
   \<and> dom (snd (load_files remdups
                  [(''10.0.0.1-443-Acme-Box1.txt'', ''Heartbleed : true'')] demo_hosts))
       = {''10.0.0.1'', ''10.0.0.2''}"
proof -
  have b: "parse_attacks ''Heartbleed : true'' = Decoded [(''Heartbleed'', True)] []"
    by code_simp
  have c: "findall filename_pattern filename_groups ''10.0.0.1-443-Acme-Box1.txt''
       = [[''10.0.0.1'', ''443'', ''Acme'', ''Box1'']]"
    by code_simp
  have e: "demo_hosts ([''10.0.0.1'', ''443'', ''Acme'', ''Box1''] ! 0) = Some \<lparr>vulnerabilities_field =
           Some [(''shodan_vulnerabilities'',
                  SDict [(''CVE-2014-0160'', 7), (''CVE-2015-0204'', 4)]),
                 (''vulners_vulnerabilities'',
                  SList [''CVE-2015-0204'', ''CVE-2016-2107''])],
         entry_fields = [(''attacks'', Other 0), (''country'', Other 1)]\<rparr>"
    by (simp add: demo_hosts_def)
  have t: "entry_truthy \<lparr>vulnerabilities_field =
           Some [(''shodan_vulnerabilities'',
                  SDict [(''CVE-2014-0160'', 7), (''CVE-2015-0204'', 4)]),
                 (''vulners_vulnerabilities'',
                  SList [''CVE-2015-0204'', ''CVE-2016-2107''])],
         entry_fields = [(''attacks'', Other (0::nat)), (''country'', Other 1)]\<rparr>"
    by (simp add: entry_truthy_def)
  have dm: "dom demo_hosts = {''10.0.0.1'', ''10.0.0.2''}"
    by (auto simp: demo_hosts_def)
  note th = driver_overwrites_only_attacks_and_bugs [OF b c, of demo_hosts remdups "[]"
      "[(''10.0.0.1-443-Acme-Box1.txt'', ''Heartbleed : true'')]"]
  from th have th3: "\<forall>e. demo_hosts ([''10.0.0.1'', ''443'', ''Acme'', ''Box1''] ! 0) = Some e
            \<and> entry_truthy e
      \<longrightarrow> (\<exists>e'. snd (process_file remdups (''10.0.0.1-443-Acme-Box1.txt'', ''Heartbleed : true'')
                     ([], demo_hosts))
                 = demo_hosts([''10.0.0.1'', ''443'', ''Acme'', ''Box1''] ! 0 \<mapsto> e')
             \<and> vulnerabilities_field e' = vulnerabilities_field e
             \<and> map_of (entry_fields e') ''attacks''
                 = (if [(''Heartbleed'', True)] \<noteq> [] then Some (Names [(''Heartbleed'', True)])
                    else map_of (entry_fields e) ''attacks'')
             \<and> map_of (entry_fields e') ''bugs''
                 = (if [] \<noteq> ([] :: names) then Some (Names [])
                    else map_of (entry_fields e) ''bugs'')
             \<and> (\<forall>k. k \<noteq> ''attacks'' \<and> k \<noteq> ''bugs''
                   \<longrightarrow> map_of (entry_fields e') k = map_of (entry_fields e) k)
             \<and> ([(''Heartbleed'', True)] = [] \<and> [] = ([] :: names) \<longrightarrow> e' = e))"
    by (elim conjE)
  from th3 [rule_format, OF conjI [OF e t]]
  obtain e' where
    s: "snd (process_file remdups (''10.0.0.1-443-Acme-Box1.txt'', ''Heartbleed : true'')
                     ([], demo_hosts))
                 = demo_hosts([''10.0.0.1'', ''443'', ''Acme'', ''Box1''] ! 0 \<mapsto> e')"
    and at: "map_of (entry_fields e') ''attacks''
                 = (if [(''Heartbleed'', True)] \<noteq> [] then Some (Names [(''Heartbleed'', True)])
                    else map_of [(''attacks'', Other (0::nat)), (''country'', Other 1)] ''attacks'')"
    and bg: "map_of (entry_fields e') ''bugs''
                 = (if [] \<noteq> ([] :: names) then Some (Names [])
                    else map_of [(''attacks'', Other (0::nat)), (''country'', Other 1)] ''bugs'')"
    and ot: "\<forall>k. k \<noteq> ''attacks'' \<and> k \<noteq> ''bugs''
                   \<longrightarrow> map_of (entry_fields e') k
                       = map_of [(''attacks'', Other (0::nat)), (''country'', Other 1)] k"
    by auto
  have s': "snd (process_file remdups (''10.0.0.1-443-Acme-Box1.txt'', ''Heartbleed : true'')
                     ([], demo_hosts)) = demo_hosts(''10.0.0.1'' \<mapsto> e')"
    using s by simp
  have at': "map_of (entry_fields e') ''attacks'' = Some (Names [(''Heartbleed'', True)])"
    using at by simp
  have bg': "map_of (entry_fields e') ''bugs'' = None"
    using bg by simp
  have ot': "map_of (entry_fields e') ''country'' = Some (Other 1)"
    using ot [rule_format, of "''country''"] by simp
  from th dm
  have d: "dom (snd (load_files remdups
                  [(''10.0.0.1-443-Acme-Box1.txt'', ''Heartbleed : true'')] demo_hosts))
       = {''10.0.0.1'', ''10.0.0.2''}"
    by simp
  from s' at' bg' ot' d b c show ?thesis
    by blast
qed

text \<open>
  Claim C6 as stated fails for an ip whose entry exists but is an empty dict: the guard
  \<^verbatim>\<open>if self.hosts.get(ip)\<close> tests the entry's truth value, so non-empty decoded attacks
  are not written into it.
\<close>

theorem existing_empty_entry_not_written:
  "demo_hosts ''10.0.0.2'' = Some \<lparr>vulnerabilities_field = None, entry_fields = []\<rparr>
   \<and> parse_attacks ''Heartbleed : true'' = Decoded [(''Heartbleed'', True)] []
   \<and> findall filename_pattern filename_groups ''10.0.0.2-443-Acme-Box2.txt''
       = [[''10.0.0.2'', ''443'', ''Acme'', ''Box2'']]
   \<and> snd (process_file remdups (''10.0.0.2-443-Acme-Box2.txt'', ''Heartbleed : true'')
            ([], demo_hosts)) ''10.0.0.2''
       = Some \<lparr>vulnerabilities_field = None, entry_fields = []\<rparr>"
proof -
  have a: "demo_hosts ''10.0.0.2'' = Some \<lparr>vulnerabilities_field = None, entry_fields = []\<rparr>"
    by (simp add: demo_hosts_def)
  have b: "parse_attacks ''Heartbleed : true'' = Decoded [(''Heartbleed'', True)] []"
    by code_simp
  have c: "findall filename_pattern filename_groups ''10.0.0.2-443-Acme-Box2.txt''
       = [[''10.0.0.2'', ''443'', ''Acme'', ''Box2'']]"
    by code_simp
  have d: "snd (process_file remdups (''10.0.0.2-443-Acme-Box2.txt'', ''Heartbleed : true'')
            ([], demo_hosts)) = demo_hosts"
    using a b c by (simp add: process_file_hosts file_record_def entry_truthy_def)
  from a b c d show ?thesis by simp
qed

lemma fold_process_file_results_keep:
  assumes "map_of res a = Some r"
  shows "map_of (fst (fold (process_file set_order) files (res, h))) a = Some r"
  using assms
proof (induction files arbitrary: res h)
  case Nil
  then show ?case by simp
next
  case (Cons f files)
  obtain res' h' where st: "process_file set_order f (res, h) = (res', h')"
    by (cases "process_file set_order f (res, h)")
  have "res' = fst (process_file set_order f (res, h))"
    by (simp add: st)
  then have "map_of res' a = Some r"
    using Cons.prems
    by (auto simp: process_file_results update_conv split: option.splits)
  then show ?case
    using Cons.IH [of res' h'] by (simp add: st)
qed

lemma fold_process_file_distinct:
  assumes "distinct (map fst res)"
  shows "distinct (map fst (fst (fold (process_file set_order) files (res, h))))"
  using assms
proof (induction files arbitrary: res h)
  case Nil
  then show ?case by simp
next
  case (Cons f files)
  obtain res' h' where st: "process_file set_order f (res, h) = (res', h')"
    by (cases "process_file set_order f (res, h)")
  have "res' = fst (process_file set_order f (res, h))"
    by (simp add: st)
  then have "distinct (map fst res')"
    using Cons.prems
    by (auto simp: process_file_results distinct_update split: option.splits)
  then show ?case
    using Cons.IH [of res' h'] by (simp add: st)
qed

lemma fold_process_file_results_absent:
  assumes "\<forall>f\<in>set files. \<forall>x. file_record set_order h0 f \<noteq> Some (a, x)"
      and "vuln_view h = vuln_view h0"
  shows "map_of (fst (fold (process_file set_order) files (res, h))) a = map_of res a
       \<and> vuln_view (snd (fold (process_file set_order) files (res, h))) = vuln_view h0"
  using assms
proof (induction files arbitrary: res h)
  case Nil
  then show ?case by simp
next
  case (Cons f files)
  obtain res' h' where st: "process_file set_order f (res, h) = (res', h')"
    by (cases "process_file set_order f (res, h)")
  have fr: "file_record set_order h f = file_record set_order h0 f"
    using Cons.prems(2) by (rule file_record_view)
  have "res' = fst (process_file set_order f (res, h))"
    by (simp add: st)
  then have keep: "map_of res' a = map_of res a"
    using Cons.prems(1) fr
    by (auto simp: process_file_results update_conv split: option.splits)
  have "vuln_view h' = vuln_view h"
    using vuln_view_process_file [of set_order f "(res, h)"] by (simp add: st)
  then have view: "vuln_view h' = vuln_view h0"
    using Cons.prems(2) by simp
  from Cons.prems(1) have rest: "\<forall>f\<in>set files. \<forall>x. file_record set_order h0 f \<noteq> Some (a, x)"
    by simp
  from Cons.IH [OF rest view, of res'] keep show ?case
    by (simp add: st)
qed

text \<open>
  Claim C1, amended. The result map holds at most one record per ip (its keys are
  distinct), and the record it holds for an ip is the one of the first file processed
  that decodes to that ip: later files for the same ip do not replace it.
\<close>

theorem first_file_for_an_ip_wins:
  assumes "file_record set_order hosts f = Some (a, r, atk, bgs)"
      and "\<forall>f'\<in>set before. \<forall>x. file_record set_order hosts f' \<noteq> Some (a, x)"
  shows "distinct (map fst (fst (load_files set_order (before @ f # after) hosts)))
       \<and> map_of (fst (load_files set_order (before @ f # after) hosts)) a = Some r"
proof -
  obtain res1 h1 where st1: "fold (process_file set_order) before ([], hosts) = (res1, h1)"
    by (cases "fold (process_file set_order) before ([], hosts)")
  from fold_process_file_results_absent [OF assms(2), of hosts "[]"]
  have no: "map_of res1 a = None" and view: "vuln_view h1 = vuln_view hosts"
    by (simp_all add: st1)
  obtain res2 h2 where st2: "process_file set_order f (res1, h1) = (res2, h2)"
    by (cases "process_file set_order f (res1, h1)")
  have fr: "file_record set_order h1 f = Some (a, r, atk, bgs)"
    using file_record_view [OF view] assms(1) by simp
  have "res2 = fst (process_file set_order f (res1, h1))"
    by (simp add: st2)
  then have "map_of res2 a = Some r"
    using no fr by (simp add: process_file_results update_conv)
  then have "map_of (fst (fold (process_file set_order) after (res2, h2))) a = Some r"
    by (rule fold_process_file_results_keep)
  then have wins: "map_of (fst (load_files set_order (before @ f # after) hosts)) a = Some r"
    by (simp add: load_files_def st1 st2)
  have "distinct (map fst (fst (load_files set_order (before @ f # after) hosts)))"
    unfolding load_files_def by (rule fold_process_file_distinct) simp
  with wins show ?thesis by simp
qed

theorem first_file_for_an_ip_wins_witness:
  "file_record remdups demo_hosts (''10.0.0.1-443-Acme-Box1.txt'', ''Heartbleed : true'')
     = Some (''10.0.0.1'',
             \<lparr>vendor = ''Acme'', product = ''Box1'', port = ''443'',
              attacks = EDict [(''Heartbleed'', True)], bugs = EDict [],
              vulnerabilities = [''CVE-2014-0160'', ''CVE-2015-0204'', ''CVE-2016-2107''],
              ip = None\<rparr>,
             [(''Heartbleed'', True)], [])
   \<and> map_option fst
         (file_record remdups demo_hosts (''10.0.0.2-443-Acme-Box2.txt'', ''Logjam : true''))
       = Some ''10.0.0.2''
   \<and> map_of (fst (load_files remdups
                     ([(''10.0.0.2-443-Acme-Box2.txt'', ''Logjam : true'')]
                      @ (''10.0.0.1-443-Acme-Box1.txt'', ''Heartbleed : true'')
                      # [(''10.0.0.1-8443-Acme-Box2.txt'', ''Heartbleed : false'')])
                     demo_hosts))
             ''10.0.0.1''
       = Some \<lparr>vendor = ''Acme'', product = ''Box1'', port = ''443'',
               attacks = EDict [(''Heartbleed'', True)], bugs = EDict [],
               vulnerabilities = [''CVE-2014-0160'', ''CVE-2015-0204'', ''CVE-2016-2107''],
               ip = None\<rparr>"
proof -
  have f: "file_record remdups demo_hosts (''10.0.0.1-443-Acme-Box1.txt'', ''Heartbleed : true'')
     = Some (''10.0.0.1'',
             \<lparr>vendor = ''Acme'', product = ''Box1'', port = ''443'',
              attacks = EDict [(''Heartbleed'', True)], bugs = EDict [],
              vulnerabilities = [''CVE-2014-0160'', ''CVE-2015-0204'', ''CVE-2016-2107''],
              ip = None\<rparr>,
             [(''Heartbleed'', True)], [])"
    by code_simp
  have b: "map_option fst
         (file_record remdups demo_hosts (''10.0.0.2-443-Acme-Box2.txt'', ''Logjam : true''))
       = Some ''10.0.0.2''"
    by code_simp
  have before: "\<forall>f'\<in>set [(''10.0.0.2-443-Acme-Box2.txt'', ''Logjam : true'')].
                  \<forall>x. file_record remdups demo_hosts f' \<noteq> Some (''10.0.0.1'', x)"
    using b by auto
  from first_file_for_an_ip_wins [OF f before] f b show ?thesis
    by blast
qed

text \<open>
  Claim C1 as stated fails: of two files for the same ip, the record of the first one
  (port 443) is retained, not that of the last one (port 8443).
\<close>

theorem last_file_for_an_ip_does_not_win:
  "map_option (\<lambda>x. (fst x, port (fst (snd x))))
       (file_record remdups demo_hosts (''10.0.0.1-8443-Acme-Box2.txt'', ''Heartbleed : false''))
     = Some (''10.0.0.1'', ''8443'')
   \<and> map_option port
         (map_of (fst (load_files remdups
                         [(''10.0.0.1-443-Acme-Box1.txt'', ''Heartbleed : true''),
                          (''10.0.0.1-8443-Acme-Box2.txt'', ''Heartbleed : false'')]
                         demo_hosts))
                 ''10.0.0.1'')
     = Some ''443''"
  by code_simp

section \<open>Properties of the Serializer\<close>

lemma exn_bind_lift_Inr [simp]: "exn_bind (exn_lift (Inr x)) k s = k x s"
  by (simp add: exn_bind_def exn_lift_def)

lemma count_unique_entities_attacks:
  "count_unique_entities results ''attacks'' =
     Inr (py_sorted_reverse snd
            (Counter (concat (map (\<lambda>h. entity_names (attacks h)) (map snd results)))))"
  by (rule count_unique_entities_eq) (simp add: get_entities_def)

lemma count_unique_entities_bugs:
  "count_unique_entities results ''bugs'' =
     Inr (py_sorted_reverse snd
            (Counter (concat (map (\<lambda>h. entity_names (bugs h)) (map snd results)))))"
  by (rule count_unique_entities_eq) (simp add: get_entities_def)

lemma count_unique_entities_vulnerabilities:
  "count_unique_entities results ''vulnerabilities'' =
     Inr (py_sorted_reverse snd (Counter (concat (map vulnerabilities (map snd results)))))"
  by (rule count_unique_entities_eq) (simp add: get_entities_def)

text \<open>
  Claim C9, amended. When \<^verbatim>\<open>json.dump\<close> fails in one of the four JSON calls, that call
  raises an exception with the message \<^verbatim>\<open>Can not save hosts to json file\<close>, and the
  exception ends the run: the JSON files written before it stay, the failing file is
  left opened and unfinished, and no later artifact is written (the output directory is
  otherwise as it was).
\<close>

theorem json_failure_ends_the_run:
  assumes "count_unique_entities all_results ''attacks'' = Inr unique_attacks"
      and "count_unique_entities all_results ''bugs'' = Inr unique_bugs"
      and "count_unique_entities all_results ''vulnerabilities'' = Inr unique_vulnerabilities"
  shows "(dump (Hosts all_results) = None
            \<longrightarrow> save_all set_order dump all_results fs
                = (Inl (Exception ''Can not save hosts to json file''),
                   fs(FULL_RESULTS_JSON \<mapsto> Unfinished)))
     \<and> (\<forall>t1. dump (Hosts all_results) = Some t1 \<and> dump (Table unique_attacks) = None
            \<longrightarrow> save_all set_order dump all_results fs
                = (Inl (Exception ''Can not save hosts to json file''),
                   fs(FULL_RESULTS_JSON \<mapsto> JsonFile t1, UNIQUE_ATTACKS_JSON \<mapsto> Unfinished)))
     \<and> (\<forall>t1 t2. dump (Hosts all_results) = Some t1 \<and> dump (Table unique_attacks) = Some t2
                \<and> dump (Table unique_bugs) = None
            \<longrightarrow> save_all set_order dump all_results fs
                = (Inl (Exception ''Can not save hosts to json file''),
                   fs(FULL_RESULTS_JSON \<mapsto> JsonFile t1, UNIQUE_ATTACKS_JSON \<mapsto> JsonFile t2,
                      UNIQUE_BUGS_JSON \<mapsto> Unfinished)))
     \<and> (\<forall>t1 t2 t3. dump (Hosts all_results) = Some t1 \<and> dump (Table unique_attacks) = Some t2
                \<and> dump (Table unique_bugs) = Some t3
                \<and> dump (Table unique_vulnerabilities) = None
            \<longrightarrow> save_all set_order dump all_results fs
                = (Inl (Exception ''Can not save hosts to json file''),
                   fs(FULL_RESULTS_JSON \<mapsto> JsonFile t1, UNIQUE_ATTACKS_JSON \<mapsto> JsonFile t2,
                      UNIQUE_BUGS_JSON \<mapsto> JsonFile t3,
                      UNIQUE_VULNERABILITIES_JSON \<mapsto> Unfinished)))"
  by (simp add: save_all_def assms exn_bind_def exn_lift_def save_results_json_def)

section \<open>Properties of the Grouped Report Builder\<close>

lemma update_absent: "k \<notin> fst ` set al \<Longrightarrow> AList.update k v al = al @ [(k, v)]"
  by (induction al) auto

lemma fold_err_appends:
  assumes "distinct ks"
      and "set ks \<inter> fst ` set acc = {}"
      and "\<And>k a. k \<in> set ks \<Longrightarrow> k \<notin> fst ` set a \<Longrightarrow> step k a = Inr (a @ [(k, g k)])"
  shows "fold_err step ks acc = Inr (acc @ map (\<lambda>k. (k, g k)) ks)"
  using assms
proof (induction ks arbitrary: acc)
  case Nil
  then show ?case by simp
next
  case (Cons k ks)
  have k: "k \<notin> fst ` set acc"
    using Cons.prems(2) by auto
  have s: "step k acc = Inr (acc @ [(k, g k)])"
    using Cons.prems(3) [of k acc] k by simp
  have d: "distinct ks"
    using Cons.prems(1) by simp
  have disj: "set ks \<inter> fst ` set (acc @ [(k, g k)]) = {}"
    using Cons.prems(1,2) by auto
  have "fold_err step ks (acc @ [(k, g k)]) = Inr ((acc @ [(k, g k)]) @ map (\<lambda>k. (k, g k)) ks)"
    by (rule Cons.IH [OF d disj]) (simp add: Cons.prems(3))
  then show ?case
    by (simp add: s)
qed

lemma traverse_ip_port:
  "\<forall>h\<in>set hs. ip h \<noteq> None \<Longrightarrow> traverse ip_port hs = Inr (map ip_port_text hs)"
  by (induction hs) (auto simp: ip_port_def ip_port_text_def)

lemma py_sorted_reverse_single [simp]: "py_sorted_reverse key [x] = [x]"
  by (simp add: py_sorted_reverse_def)

lemma product_group_ok:
  assumes "\<forall>h\<in>set hs. ip h \<noteq> None"
  shows "product_group hs v p =
           Inr [(p, (map ip_port_text (product_hosts hs v p), length (product_hosts hs v p)))]"
proof -
  have "traverse ip_port (product_hosts hs v p) = Inr (map ip_port_text (product_hosts hs v p))"
    using assms by (intro traverse_ip_port) (simp add: product_hosts_def)
  then show ?thesis
    by (simp add: product_group_def product_hosts_def Let_def)
qed

lemma vendor_group_ok:
  assumes "\<forall>h\<in>set hs. ip h \<noteq> None" and "set_order_ok set_order"
  shows "vendor_group set_order hs v = Inr (vendor_products set_order hs v)"
proof -
  let ?ps = "list_set set_order (map product (filter (\<lambda>host. vendor host = v) hs))"
  let ?g = "\<lambda>p. (map ip_port_text (product_hosts hs v p), length (product_hosts hs v p))"
  have d: "distinct ?ps"
    using assms(2) by (simp add: list_set_ok)
  have "fold_err (\<lambda>p acc. case product_group hs v p of
                             Inl e \<Rightarrow> Inl e
                           | Inr res_sorted_dict \<Rightarrow> Inr (dict_update res_sorted_dict acc))
                 ?ps [] = Inr ([] @ map (\<lambda>p. (p, ?g p)) ?ps)"
    using d
  proof (rule fold_err_appends)
    show "set ?ps \<inter> fst ` set [] = {}" by simp
  next
    fix p a
    assume "p \<notin> fst ` set (a :: (string \<times> product_info) list)"
    then show "(case product_group hs v p of
                  Inl e \<Rightarrow> Inl e
                | Inr res_sorted_dict \<Rightarrow> Inr (dict_update res_sorted_dict a))
               = Inr (a @ [(p, ?g p)])"
      by (simp add: product_group_ok [OF assms(1)] dict_update_def update_absent)
  qed
  then show ?thesis
    by (simp add: vendor_group_def vendor_products_def Let_def)
qed

lemma attack_group_ok:
  assumes "\<forall>h\<in>set (map snd results). has_attack attack h \<longrightarrow> ip h \<noteq> None"
      and "set_order_ok set_order"
  shows "attack_group set_order results attack = Inr (attack_vendors set_order results attack)"
proof -
  let ?hs = "filter (has_attack attack) (map snd results)"
  let ?vs = "list_set set_order (map vendor ?hs)"
  have ips: "\<forall>h\<in>set ?hs. ip h \<noteq> None"
    using assms(1) by auto
  have d: "distinct ?vs"
    using assms(2) by (simp add: list_set_ok)
  have "fold_err (\<lambda>v acc. case vendor_group set_order ?hs v of
                             Inl e \<Rightarrow> Inl e
                           | Inr prods \<Rightarrow> Inr (AList.update v prods acc))
                 ?vs [] = Inr ([] @ map (\<lambda>v. (v, vendor_products set_order ?hs v)) ?vs)"
    using d
  proof (rule fold_err_appends)
    show "set ?vs \<inter> fst ` set [] = {}" by simp
  next
    fix v a
    assume "v \<notin> fst ` set (a :: (string \<times> (string \<times> product_info) list) list)"
    then show "(case vendor_group set_order ?hs v of
                  Inl e \<Rightarrow> Inl e
                | Inr prods \<Rightarrow> Inr (AList.update v prods a))
               = Inr (a @ [(v, vendor_products set_order ?hs v)])"
      by (simp add: vendor_group_ok [OF ips assms(2)] update_absent)
  qed
  then show ?thesis
    by (simp add: attack_group_def attack_vendors_def Let_def)
qed

lemma mset_partition_by_key:
  assumes "distinct ks" and "f ` set xs \<subseteq> set ks"
  shows "mset (concat (map (\<lambda>k. filter (\<lambda>x. f x = k) xs) ks)) = mset xs"
  using assms
proof (induction ks arbitrary: xs)
  case Nil
  then show ?case by simp
next
  case (Cons k ks)
  let ?rest = "filter (\<lambda>x. f x \<noteq> k) xs"
  have same: "map (\<lambda>k'. filter (\<lambda>x. f x = k') xs) ks = map (\<lambda>k'. filter (\<lambda>x. f x = k') ?rest) ks"
  proof (rule map_cong [OF refl])
    fix k'
    assume "k' \<in> set ks"
    then have "k' \<noteq> k"
      using Cons.prems(1) by auto
    then show "filter (\<lambda>x. f x = k') xs = filter (\<lambda>x. f x = k') ?rest"
      by (auto intro: filter_cong)
  qed
  have sub: "f ` set ?rest \<subseteq> set ks"
    using Cons.prems(2) by auto
  have d: "distinct ks"
    using Cons.prems(1) by simp
  have "mset (concat (map (\<lambda>k'. filter (\<lambda>x. f x = k') ?rest) ks)) = mset ?rest"
    by (rule Cons.IH [OF d sub])
  then have "mset (concat (map (\<lambda>k'. filter (\<lambda>x. f x = k') xs) (k # ks)))
               = mset (filter (\<lambda>x. f x = k) xs) + mset ?rest"
    by (simp add: same)
  also have "\<dots> = mset xs"
    by (simp add: mset_filter) 
  finally show ?case .
qed

lemma set_order_partition:
  assumes "set_order_ok set_order"
  shows "mset (concat (map (\<lambda>k. filter (\<lambda>x. f x = k) xs) (list_set set_order (map f xs)))) = mset xs"
proof (rule mset_partition_by_key)
  show "distinct (list_set set_order (map f xs))"
    using assms by (simp add: list_set_ok)
  show "f ` set xs \<subseteq> set (list_set set_order (map f xs))"
    using assms by (simp add: list_set_ok)
qed

lemma product_hosts_filter:
  "product_hosts hs v p = filter (\<lambda>h. product h = p) (filter (\<lambda>h. vendor h = v) hs)"
  by (simp add: product_hosts_def conj_commute)

lemma mset_concat_image:
  assumes "\<And>k. mset (F k) = image_mset g (mset (G k))"
  shows "mset (concat (map F ks)) = image_mset g (mset (concat (map G ks)))"
  by (induction ks) (simp_all add: assms)

lemma vendor_products_hosts:
  assumes "set_order_ok set_order"
  shows "mset (concat (map (\<lambda>info. fst (snd info)) (vendor_products set_order hs v)))
           = image_mset ip_port_text (mset (filter (\<lambda>h. vendor h = v) hs))"
    and "sum_list (map (\<lambda>info. snd (snd info)) (vendor_products set_order hs v))
           = length (filter (\<lambda>h. vendor h = v) hs)"
proof -
  let ?hv = "filter (\<lambda>h. vendor h = v) hs"
  let ?ps = "list_set set_order (map product ?hv)"
  let ?parts = "concat (map (\<lambda>p. filter (\<lambda>h. product h = p) ?hv) ?ps)"
  have part: "mset ?parts = mset ?hv"
    using assms by (rule set_order_partition)
  have "concat (map (\<lambda>info. fst (snd info)) (vendor_products set_order hs v))
          = map ip_port_text ?parts"
    by (simp add: vendor_products_def product_hosts_filter comp_def map_concat)
  then have "mset (concat (map (\<lambda>info. fst (snd info)) (vendor_products set_order hs v)))
          = image_mset ip_port_text (mset ?parts)"
    by (simp only: mset_map)
  then show "mset (concat (map (\<lambda>info. fst (snd info)) (vendor_products set_order hs v)))
           = image_mset ip_port_text (mset ?hv)"
    by (simp only: part)
  have "sum_list (map (\<lambda>info. snd (snd info)) (vendor_products set_order hs v))
          = length ?parts"
    by (simp add: vendor_products_def product_hosts_filter comp_def length_concat)
  also have "\<dots> = length ?hv"
    using part by (rule mset_eq_length)
  finally show "sum_list (map (\<lambda>info. snd (snd info)) (vendor_products set_order hs v))
           = length ?hv" .
qed

lemma attack_vendors_hosts:
  assumes "set_order_ok set_order"
  shows "mset (concat (map (\<lambda>item. row_ips (vendor_row attack (fst item) (snd item)))
                           (attack_vendors set_order results attack)))
           = image_mset ip_port_text (mset (filter (has_attack attack) (map snd results)))"
    and "sum_list (map (\<lambda>item. row_quantity (vendor_row attack (fst item) (snd item)))
                       (attack_vendors set_order results attack))
           = length (filter (has_attack attack) (map snd results))"
proof -
  let ?hs = "filter (has_attack attack) (map snd results)"
  let ?vs = "list_set set_order (map vendor ?hs)"
  let ?parts = "concat (map (\<lambda>v. filter (\<lambda>h. vendor h = v) ?hs) ?vs)"
  have part: "mset ?parts = mset ?hs"
    using assms by (rule set_order_partition)
  have rows: "map (\<lambda>item. row_ips (vendor_row attack (fst item) (snd item)))
                  (attack_vendors set_order results attack)
                = map (\<lambda>v. concat (map (\<lambda>info. fst (snd info)) (vendor_products set_order ?hs v)))
                      ?vs"
    by (simp add: attack_vendors_def Let_def vendor_row_def comp_def)
  have "mset (concat (map (\<lambda>v. concat (map (\<lambda>info. fst (snd info))
                                            (vendor_products set_order ?hs v))) ?vs))
          = image_mset ip_port_text (mset ?parts)"
    by (rule mset_concat_image) (rule vendor_products_hosts(1) [OF assms])
  then show "mset (concat (map (\<lambda>item. row_ips (vendor_row attack (fst item) (snd item)))
                           (attack_vendors set_order results attack)))
           = image_mset ip_port_text (mset ?hs)"
    by (simp only: rows part)
  have "sum_list (map (\<lambda>item. row_quantity (vendor_row attack (fst item) (snd item)))
                       (attack_vendors set_order results attack))
          = sum_list (map (\<lambda>v. length (filter (\<lambda>h. vendor h = v) ?hs)) ?vs)"
    by (simp add: attack_vendors_def Let_def vendor_row_def comp_def
                  vendor_products_hosts(2) [OF assms])
  also have "\<dots> = length ?parts"
    by (simp add: length_concat comp_def)
  also have "\<dots> = length ?hs"
    using part by (rule mset_eq_length)
  finally show "sum_list (map (\<lambda>item. row_quantity (vendor_row attack (fst item) (snd item)))
                       (attack_vendors set_order results attack))
           = length ?hs" .
qed

lemma distinct_counter_add:
  "distinct (map fst c) \<Longrightarrow> distinct (map fst (counter_add x c))"
  by (simp add: counter_add_def distinct_update)

lemma distinct_fold_counter_add:
  "distinct (map fst c) \<Longrightarrow> distinct (map fst (fold counter_add xs c))"
  by (induction xs arbitrary: c) (simp_all add: distinct_counter_add)

lemma map_of_counter_add:
  "map_of (counter_add x c) y =
     (if y = x then Some (case map_of c x of None \<Rightarrow> 1 | Some n \<Rightarrow> n + 1) else map_of c y)"
  by (simp add: counter_add_def update_conv)

lemma map_of_fold_counter_add:
  "map_of (fold counter_add xs c) y =
     (case map_of c y of
        None \<Rightarrow> if y \<in> set xs then Some (count_list xs y) else None
      | Some m \<Rightarrow> Some (m + count_list xs y))"
proof (induction xs arbitrary: c)
  case Nil
  then show ?case by (simp split: option.splits)
next
  case (Cons x xs)
  show ?case
    by (simp add: Cons.IH map_of_counter_add count_list_0_iff split: option.splits)
qed

lemma map_of_Counter:
  "map_of (Counter xs) y = (if y \<in> set xs then Some (count_list xs y) else None)"
  by (simp add: Counter_def map_of_fold_counter_add)

lemma distinct_Counter: "distinct (map fst (Counter xs))"
  by (simp add: Counter_def distinct_fold_counter_add)

lemma distinct_keys_py_sorted_reverse:
  "distinct (map fst (py_sorted_reverse key xs)) = distinct (map fst xs)"
proof -
  have "mset (map fst (py_sorted_reverse key xs)) = mset (map fst xs)"
    by (simp add: mset_py_sorted_reverse)
  then show ?thesis
    by (rule mset_eq_imp_distinct_iff)
qed

lemma map_of_py_sorted_reverse:
  assumes "distinct (map fst xs)"
  shows "map_of (py_sorted_reverse key xs) = map_of xs"
proof -
  have "set (py_sorted_reverse key xs) = set xs"
    using mset_py_sorted_reverse [of key xs] by (rule mset_eq_setD)
  moreover have "distinct (map fst (py_sorted_reverse key xs))"
    using assms by (simp add: distinct_keys_py_sorted_reverse)
  ultimately show ?thesis
    using assms by (simp add: map_of_inject_set)
qed

lemma count_list_distinct:
  "distinct xs \<Longrightarrow> count_list xs a = (if a \<in> set xs then 1 else 0)"
  by (induction xs) auto

lemma count_list_concat_distinct:
  assumes "\<forall>xs\<in>set xss. distinct xs"
  shows "count_list (concat xss) a = length (filter (\<lambda>xs. a \<in> set xs) xss)"
  using assms by (induction xss) (simp_all add: count_list_distinct)

lemma attack_count_is_host_count:
  assumes "\<forall>h\<in>set (map snd results). distinct (entity_names (attacks h))"
  shows "count_list (concat (map (\<lambda>h. entity_names (attacks h)) (map snd results))) attack
           = length (filter (has_attack attack) (map snd results))"
proof -
  have "count_list (concat (map (\<lambda>h. entity_names (attacks h)) (map snd results))) attack
          = length (filter (\<lambda>xs. attack \<in> set xs)
                           (map (\<lambda>h. entity_names (attacks h)) (map snd results)))"
    using assms by (intro count_list_concat_distinct) auto
  also have "\<dots> = length (filter (has_attack attack) (map snd results))"
    by (simp add: filter_map comp_def has_attack_def)
  finally show ?thesis .
qed

lemma map_of_map_key:
  "k \<in> set ks \<Longrightarrow> map_of (map (\<lambda>k. (k, f k)) ks) k = Some (f k)"
  by (induction ks) auto

lemma groupped_results_ok:
  assumes "\<forall>h\<in>set (map snd results). ip h \<noteq> None"
      and "set_order_ok set_order"
      and "count_unique_entities results ''attacks'' = Inr table"
  shows "groupped_results set_order results
           = Inr (map (\<lambda>attack. (attack, attack_vendors set_order results attack))
                      (map fst table))"
proof -
  have t: "table = py_sorted_reverse snd
             (Counter (concat (map (\<lambda>h. entity_names (attacks h)) (map snd results))))"
    using assms(3) count_unique_entities_eq [of "''attacks''" "\<lambda>h. entity_names (attacks h)" results]
    by (simp add: get_entities_def)
  have d: "distinct (map fst table)"
    by (simp add: t distinct_keys_py_sorted_reverse distinct_Counter)
  have "fold_err (\<lambda>attack acc. case attack_group set_order results attack of
                                    Inl e \<Rightarrow> Inl e
                                  | Inr vendors \<Rightarrow> Inr (AList.update attack vendors acc))
                 (map fst table) []
          = Inr ([] @ map (\<lambda>attack. (attack, attack_vendors set_order results attack))
                          (map fst table))"
    using d
  proof (rule fold_err_appends)
    show "set (map fst table) \<inter> fst ` set [] = {}" by simp
  next
    fix attack a
    assume "attack \<notin> fst ` set (a :: groupped)"
    moreover have "attack_group set_order results attack
                     = Inr (attack_vendors set_order results attack)"
      using assms(1,2) by (intro attack_group_ok) auto
    ultimately show "(case attack_group set_order results attack of
                  Inl e \<Rightarrow> Inl e
                | Inr vendors \<Rightarrow> Inr (AList.update attack vendors a))
               = Inr (a @ [(attack, attack_vendors set_order results attack)])"
      by (simp add: update_absent)
  qed
  then show ?thesis
    by (simp add: groupped_results_def assms(3))
qed

text \<open>
  Claim C5. Let every host of the result map carry its ip and list each of its attacks
  once (the map that a run hands to the grouped serializer does: lemma
  \<open>run_results_wellformed\<close> below), and let the attack be a key of the attack frequency
  table, with count \<open>n\<close>. Then the grouped report is
  built, it has an entry for the attack, and the vendor-total quantities of that entry
  add up to \<open>n\<close>, which is the number of hosts having the attack; the \<^verbatim>\<open>ip:port\<close>
  strings of the vendor-total rows are, as a multiset, those of the hosts having the
  attack: each host is counted once, none is left out.
\<close>

theorem vendor_totals_sum_to_attack_frequency:
  assumes "set_order_ok set_order"
      and "\<forall>h\<in>set (map snd results). ip h \<noteq> None"
      and "\<forall>h\<in>set (map snd results). distinct (entity_names (attacks h))"
      and "count_unique_entities results ''attacks'' = Inr table"
      and "map_of table attack = Some n"
  shows "\<exists>g vendors.
           groupped_results set_order results = Inr g
         \<and> map_of g attack = Some vendors
         \<and> sum_list (map (\<lambda>item. row_quantity (vendor_row attack (fst item) (snd item))) vendors)
             = n
         \<and> n = length (filter (has_attack attack) (map snd results))
         \<and> mset (concat (map (\<lambda>item. row_ips (vendor_row attack (fst item) (snd item))) vendors))
             = image_mset ip_port_text (mset (filter (has_attack attack) (map snd results)))"
proof -
  let ?flat = "concat (map (\<lambda>h. entity_names (attacks h)) (map snd results))"
  let ?g = "map (\<lambda>attack. (attack, attack_vendors set_order results attack)) (map fst table)"
  have t: "table = py_sorted_reverse snd (Counter ?flat)"
    using assms(4) count_unique_entities_eq [of "''attacks''" "\<lambda>h. entity_names (attacks h)" results]
    by (simp add: get_entities_def)
  have "map_of table attack = map_of (Counter ?flat) attack"
    by (simp add: t map_of_py_sorted_reverse distinct_Counter)
  then have "Some n = (if attack \<in> set ?flat then Some (count_list ?flat attack) else None)"
    using assms(5) by (simp add: map_of_Counter)
  then have n: "n = count_list ?flat attack"
    by (simp split: if_splits)
  have hosts: "n = length (filter (has_attack attack) (map snd results))"
    using n attack_count_is_host_count [OF assms(3)] by simp
  have g: "groupped_results set_order results = Inr ?g"
    using assms(2,1,4) by (rule groupped_results_ok)
  have key: "attack \<in> set (map fst table)"
    using assms(5) by (auto dest: map_of_SomeD intro: rev_image_eqI)
  have look: "map_of ?g attack = Some (attack_vendors set_order results attack)"
    using key by (rule map_of_map_key)
  from g look hosts attack_vendors_hosts [OF assms(1), of attack results]
  show ?thesis
    by auto
qed

section \<open>The flat CSV serializer and the grouped report\<close>

lemma distinct_parse_entries: "distinct (map fst (parse_entries catalog text))"
proof -
  have "distinct (map fst acc) \<Longrightarrow>
        distinct (map fst (fold (\<lambda>entry acc.
             (case findall_entry entry text of
                [] \<Rightarrow> acc
              | r # _ \<Rightarrow> if r = [''true''] then AList.update entry True acc else acc))
          catalog acc))" for acc
    by (induction catalog arbitrary: acc) (simp_all add: distinct_update split: list.splits)
  then show ?thesis
    by (simp add: parse_entries_def)
qed

lemma file_record_fresh:
  assumes "file_record set_order hosts file = Some (a, r, atk, bgs)"
  shows "fresh_record r"
  using assms
  by (auto simp: file_record_def parse_attacks_def fresh_record_def distinct_parse_entries
           split: decoded.splits list.splits if_splits)

lemma process_file_fresh:
  assumes "\<forall>h\<in>set (map snd res). fresh_record h"
  shows "\<forall>h\<in>set (map snd (fst (process_file set_order file (res, hosts)))). fresh_record h"
proof (cases "file_record set_order hosts file")
  case None
  then show ?thesis
    using assms by (simp add: process_file_results)
next
  case (Some x)
  obtain a r atk bgs where x: "x = (a, r, atk, bgs)"
    by (cases x)
  have r: "fresh_record r"
    using Some x by (auto intro: file_record_fresh)
  show ?thesis
  proof (cases "map_of res a")
    case None
    then have "a \<notin> fst ` set res"
      by (simp add: map_of_eq_None_iff)
    then have "AList.update a r res = res @ [(a, r)]"
      by (rule update_absent)
    moreover have "fst (process_file set_order file (res, hosts)) = AList.update a r res"
      using Some x None by (simp add: process_file_results)
    ultimately have "fst (process_file set_order file (res, hosts)) = res @ [(a, r)]"
      by simp
    then show ?thesis
      using assms r by simp
  next
    case (Some y)
    then have "fst (process_file set_order file (res, hosts)) = res"
      using \<open>file_record set_order hosts file = Some x\<close> x by (simp add: process_file_results)
    then show ?thesis
      using assms by simp
  qed
qed

lemma load_files_fresh:
  "\<forall>h\<in>set (map snd (fst (load_files set_order files hosts))). fresh_record h"
proof -
  have "\<forall>h\<in>set (map snd res). fresh_record h \<Longrightarrow>
        \<forall>h\<in>set (map snd (fst (fold (process_file set_order) files (res, hs)))). fresh_record h"
    for res and hs :: "'a hosts"
  proof (induction files arbitrary: res hs)
    case Nil
    then show ?case by simp
  next
    case (Cons f files)
    obtain res' hs' where st: "process_file set_order f (res, hs) = (res', hs')"
      by (cases "process_file set_order f (res, hs)")
    have "\<forall>h\<in>set (map snd (fst (process_file set_order f (res, hs)))). fresh_record h"
      using Cons.prems by (rule process_file_fresh)
    then have "\<forall>h\<in>set (map snd res'). fresh_record h"
      by (simp add: st)
    then show ?case
      using Cons.IH [of res' hs'] by (simp add: st)
  qed
  from this [of "[]" hosts] show ?thesis
    by (simp add: load_files_def)
qed

lemma csv_row_fresh: "fresh_record (snd item) \<Longrightarrow> csv_row item = Inr (with_ip item)"
  by (auto simp: csv_row_def with_ip_def fresh_record_def entity_keys_def entity_names_def
           split: entities.splits)

lemma traverse_csv_row:
  "\<forall>h\<in>set (map snd items). fresh_record h \<Longrightarrow> traverse csv_row items = Inr (map with_ip items)"
  by (induction items) (simp_all add: csv_row_fresh)

lemma save_results_csv_fresh:
  assumes "\<forall>h\<in>set (map snd results). fresh_record h"
  shows "save_results_csv results filename fs =
           (Inr (map with_ip results),
            fs(filename \<mapsto> FlatCsv (map snd (map with_ip
                                 (sort_key (\<lambda>item. product (snd item)) results)))))"
proof -
  have "traverse csv_row (sort_key (\<lambda>item. product (snd item)) results)
          = Inr (map with_ip (sort_key (\<lambda>item. product (snd item)) results))"
    using assms by (intro traverse_csv_row) simp
  moreover have "traverse csv_row results = Inr (map with_ip results)"
    using assms by (rule traverse_csv_row)
  ultimately show ?thesis
    by (simp add: save_results_csv_def)
qed

lemma with_ip_fresh:
  assumes "fresh_record (snd item)"
  shows "ip (snd (with_ip item)) \<noteq> None"
    and "distinct (entity_names (attacks (snd (with_ip item))))"
proof -
  show "ip (snd (with_ip item)) \<noteq> None"
    by (simp add: with_ip_def)
  show "distinct (entity_names (attacks (snd (with_ip item))))"
    using assms
    by (cases "attacks (snd item)") (simp_all add: with_ip_def fresh_record_def entity_names_def)
qed

lemma with_ip_wellformed:
  assumes "\<forall>h\<in>set (map snd results). fresh_record h"
  shows "\<forall>h\<in>set (map snd (map with_ip results)).
           ip h \<noteq> None \<and> distinct (entity_names (attacks h))"
proof
  fix h
  assume "h \<in> set (map snd (map with_ip results))"
  then obtain item where item: "item \<in> set results" and h: "h = snd (with_ip item)"
    by auto
  from item assms have "fresh_record (snd item)"
    by simp
  then show "ip h \<noteq> None \<and> distinct (entity_names (attacks h))"
    unfolding h by (simp add: with_ip_fresh)
qed

lemma has_attack_with_ip [simp]: "has_attack attack (snd (with_ip item)) = has_attack attack (snd item)"
  by (simp add: has_attack_def with_ip_def entity_names_def)

lemma ip_port_text_with_ip [simp]:
  "ip_port_text (snd (with_ip item)) = fst item @ '':'' @ port (snd item)"
  by (simp add: ip_port_text_def with_ip_def)

lemma fold_err_all_fail:
  assumes "ks \<noteq> []" and "\<And>k a. k \<in> set ks \<Longrightarrow> step k a = Inl e"
  shows "fold_err step ks acc = Inl e"
  using assms by (cases ks) simp_all

lemma traverse_ip_port_fail:
  assumes "hs \<noteq> []" and "\<forall>h\<in>set hs. ip h = None"
  shows "traverse ip_port hs = Inl TypeError"
  using assms by (cases hs) (simp_all add: ip_port_def)

lemma product_group_fail:
  assumes "\<forall>h\<in>set hs. ip h = None" and "p \<in> set (map product (filter (\<lambda>h. vendor h = v) hs))"
  shows "product_group hs v p = Inl TypeError"
proof -
  have ne: "filter (\<lambda>host. vendor host = v \<and> product host = p) hs \<noteq> []"
    using assms(2) by (auto simp: filter_empty_conv)
  have "traverse ip_port (filter (\<lambda>host. vendor host = v \<and> product host = p) hs) = Inl TypeError"
    using ne assms(1) by (intro traverse_ip_port_fail) auto
  then show ?thesis
    by (simp add: product_group_def)
qed

lemma vendor_group_fail:
  assumes "\<forall>h\<in>set hs. ip h = None" and "v \<in> set (map vendor hs)" and "set_order_ok set_order"
  shows "vendor_group set_order hs v = Inl TypeError"
proof -
  let ?xs = "map product (filter (\<lambda>host. vendor host = v) hs)"
  have s: "set (list_set set_order ?xs) = set ?xs"
    using assms(3) by (simp add: list_set_ok)
  have "?xs \<noteq> []"
    using assms(2) by (auto simp: filter_empty_conv)
  then have ne: "list_set set_order ?xs \<noteq> []"
    using s by (metis set_empty)
  have "fold_err (\<lambda>p acc. case product_group hs v p of
                             Inl e \<Rightarrow> Inl e
                           | Inr res_sorted_dict \<Rightarrow> Inr (dict_update res_sorted_dict acc))
              (list_set set_order ?xs) [] = Inl TypeError"
    using ne
  proof (rule fold_err_all_fail)
    fix p a
    assume "p \<in> set (list_set set_order ?xs)"
    then have "p \<in> set ?xs"
      by (simp only: s)
    then have "product_group hs v p = Inl TypeError"
      using assms(1) by (intro product_group_fail)
    then show "(case product_group hs v p of
                  Inl e \<Rightarrow> Inl e
                | Inr res_sorted_dict \<Rightarrow> Inr (dict_update res_sorted_dict a)) = Inl TypeError"
      by simp
  qed
  then show ?thesis
    by (simp add: vendor_group_def Let_def)
qed

lemma attack_group_fail:
  assumes "\<forall>h\<in>set (map snd results). ip h = None"
      and "\<exists>h\<in>set (map snd results). has_attack attack h"
      and "set_order_ok set_order"
  shows "attack_group set_order results attack = Inl TypeError"
proof -
  let ?hs = "filter (has_attack attack) (map snd results)"
  let ?xs = "map vendor ?hs"
  have ips: "\<forall>h\<in>set ?hs. ip h = None"
    using assms(1) by auto
  have s: "set (list_set set_order ?xs) = set ?xs"
    using assms(3) by (simp add: list_set_ok)
  have "?xs \<noteq> []"
    using assms(2) by (auto simp: filter_empty_conv)
  then have ne: "list_set set_order ?xs \<noteq> []"
    using s by (metis set_empty)
  have "fold_err (\<lambda>v acc. case vendor_group set_order ?hs v of
                             Inl e \<Rightarrow> Inl e
                           | Inr prods \<Rightarrow> Inr (AList.update v prods acc))
              (list_set set_order ?xs) [] = Inl TypeError"
    using ne
  proof (rule fold_err_all_fail)
    fix v a
    assume "v \<in> set (list_set set_order ?xs)"
    then have "v \<in> set ?xs"
      by (simp only: s)
    then have "vendor_group set_order ?hs v = Inl TypeError"
      using ips assms(3) by (intro vendor_group_fail)
    then show "(case vendor_group set_order ?hs v of
                  Inl e \<Rightarrow> Inl e
                | Inr prods \<Rightarrow> Inr (AList.update v prods a)) = Inl TypeError"
      by simp
  qed
  then show ?thesis
    by (simp add: attack_group_def Let_def)
qed

lemma keys_Counter: "fst ` set (Counter xs) = set xs"
proof -
  have "dom (map_of (Counter xs)) = set xs"
    by (auto simp: map_of_Counter dom_def)
  then show ?thesis
    by (simp add: dom_map_of_conv_image_fst)
qed

lemma keys_py_sorted_reverse: "set (map fst (py_sorted_reverse key xs)) = set (map fst xs)"
proof -
  have "set (py_sorted_reverse key xs) = set xs"
    using mset_py_sorted_reverse [of key xs] by (rule mset_eq_setD)
  then show ?thesis by simp
qed

lemma groupped_results_fresh:
  assumes "\<forall>h\<in>set (map snd results). ip h = None" and "set_order_ok set_order"
  shows "groupped_results set_order results
           = (if \<exists>h\<in>set (map snd results). entity_names (attacks h) \<noteq> []
              then Inl TypeError else Inr [])"
proof -
  let ?flat = "concat (map (\<lambda>h. entity_names (attacks h)) (map snd results))"
  let ?table = "py_sorted_reverse snd (Counter ?flat)"
  have t: "count_unique_entities results ''attacks'' = Inr ?table"
    by (rule count_unique_entities_eq) (simp add: get_entities_def)
  have keys: "set (map fst ?table) = set ?flat"
    by (simp only: keys_py_sorted_reverse) (simp add: keys_Counter)
  show ?thesis
  proof (cases "\<exists>h\<in>set (map snd results). entity_names (attacks h) \<noteq> []")
    case False
    then have e: "?flat = []"
      by auto
    have "?table = py_sorted_reverse snd (Counter [])"
      by (simp only: e)
    then have "?table = []"
      by (simp add: Counter_def py_sorted_reverse_def)
    then show ?thesis
      using False t by (simp add: groupped_results_def)
  next
    case True
    then have "set ?flat \<noteq> {}"
      by auto
    then have ne: "map fst ?table \<noteq> []"
      using keys by (metis set_empty)
    have "fold_err (\<lambda>attack acc. case attack_group set_order results attack of
                                    Inl e \<Rightarrow> Inl e
                                  | Inr vendors \<Rightarrow> Inr (AList.update attack vendors acc))
                   (map fst ?table) [] = Inl TypeError"
      using ne
    proof (rule fold_err_all_fail)
      fix attack a
      assume "attack \<in> set (map fst ?table)"
      then have "attack \<in> set ?flat"
        by (simp only: keys)
      then have "\<exists>h\<in>set (map snd results). has_attack attack h"
        by (auto simp: has_attack_def)
      then have "attack_group set_order results attack = Inl TypeError"
        using assms by (intro attack_group_fail)
      then show "(case attack_group set_order results attack of
                    Inl e \<Rightarrow> Inl e
                  | Inr vendors \<Rightarrow> Inr (AList.update attack vendors a)) = Inl TypeError"
        by simp
    qed
    then show ?thesis
      using True t by (simp add: groupped_results_def)
  qed
qed

lemma groupped_rows_ips:
  assumes "row \<in> set (groupped_rows
                        (map (\<lambda>attack. (attack, attack_vendors set_order results attack)) as))"
  shows "set (row_ips row) \<subseteq> ip_port_text ` set (map snd results)"
proof -
  from assms obtain attack v prods where
    v: "(v, prods) \<in> set (attack_vendors set_order results attack)"
    and row: "row = vendor_row attack v prods \<or> row \<in> set (map (product_row attack v) prods)"
    by (auto simp: groupped_rows_def)
  let ?hs = "filter (has_attack attack) (map snd results)"
  from v have prods: "prods = vendor_products set_order ?hs v"
    by (auto simp: attack_vendors_def Let_def)
  have sub: "set (product_hosts ?hs v p) \<subseteq> set (map snd results)" for p
    by (auto simp: product_hosts_def)
  have each: "set (fst (snd item)) \<subseteq> ip_port_text ` set (map snd results)"
    if "item \<in> set prods" for item
  proof -
    from that obtain p where "fst (snd item) = map ip_port_text (product_hosts ?hs v p)"
      by (auto simp: prods vendor_products_def)
    then have "set (fst (snd item)) = ip_port_text ` set (product_hosts ?hs v p)"
      by simp
    then show ?thesis
      using sub [of p] by blast
  qed
  from row show ?thesis
  proof
    assume "row = vendor_row attack v prods"
    then have "set (row_ips row) = (\<Union>item\<in>set prods. set (fst (snd item)))"
      by (simp add: vendor_row_def)
    then show ?thesis
      using each by blast
  next
    assume "row \<in> set (map (product_row attack v) prods)"
    then obtain item where "item \<in> set prods" and "row = product_row attack v item"
      by auto
    then have "item \<in> set prods" and "row_ips row = fst (snd item)"
      by (simp_all add: product_row_def)
    then show ?thesis
      using each by simp
  qed
qed

text \<open>
  Claim C10. On the result map of the loop, \<^verbatim>\<open>save_results_csv\<close> succeeds and returns
  the map with every record changed as \<open>with_ip\<close> says: its ip stored under \<^verbatim>\<open>ip\<close>,
  its attacks and bugs replaced by the lists of their names. On the map as the loop
  left it, without that change, the grouped report raises a \<^verbatim>\<open>TypeError\<close> as soon
  as one host has an attack, and is empty otherwise: it holds no \<^verbatim>\<open>ip:port\<close> string.
  On the changed map the grouped report is built, and every \<^verbatim>\<open>ip:port\<close> string of
  its rows is made of the key and the port of a record of the map.
\<close>

theorem save_results_csv_prepares_grouped_report:
  assumes "set_order_ok set_order"
      and "all_results = fst (load_files set_order files hosts)"
  shows "(\<exists>rows. save_results_csv all_results filename fs
                  = (Inr (map with_ip all_results), fs(filename \<mapsto> FlatCsv rows)))
       \<and> groupped_results set_order all_results
           = (if \<exists>h\<in>set (map snd all_results). entity_names (attacks h) \<noteq> []
              then Inl TypeError else Inr [])
       \<and> (\<exists>g. groupped_results set_order (map with_ip all_results) = Inr g
              \<and> (\<forall>row\<in>set (groupped_rows g). \<forall>s\<in>set (row_ips row).
                    \<exists>item\<in>set all_results. s = fst item @ '':'' @ port (snd item)))"
proof (intro conjI)
  have fresh: "\<forall>h\<in>set (map snd all_results). fresh_record h"
    unfolding assms(2) by (rule load_files_fresh)
  show "\<exists>rows. save_results_csv all_results filename fs
                  = (Inr (map with_ip all_results), fs(filename \<mapsto> FlatCsv rows))"
    using save_results_csv_fresh [OF fresh] by blast
  have "\<forall>h\<in>set (map snd all_results). ip h = None"
    using fresh by (simp add: fresh_record_def)
  then show "groupped_results set_order all_results
           = (if \<exists>h\<in>set (map snd all_results). entity_names (attacks h) \<noteq> []
              then Inl TypeError else Inr [])"
    using assms(1) by (rule groupped_results_fresh)
  let ?r = "map with_ip all_results"
  obtain table where table: "count_unique_entities ?r ''attacks'' = Inr table"
    using count_unique_entities_attacks by blast
  let ?g = "map (\<lambda>attack. (attack, attack_vendors set_order ?r attack)) (map fst table)"
  have ips: "\<forall>h\<in>set (map snd ?r). ip h \<noteq> None"
    using with_ip_wellformed [OF fresh] by blast
  have g: "groupped_results set_order ?r = Inr ?g"
    using ips assms(1) table by (rule groupped_results_ok)
  have "\<exists>item\<in>set all_results. s = fst item @ '':'' @ port (snd item)"
    if "row \<in> set (groupped_rows ?g)" and "s \<in> set (row_ips row)" for row s
  proof -
    have "s \<in> ip_port_text ` set (map snd ?r)"
      using groupped_rows_ips [OF that(1)] that(2) by blast
    then obtain item where item: "item \<in> set all_results"
      and "s = ip_port_text (snd (with_ip item))"
      by auto
    then have "s = fst item @ '':'' @ port (snd item)"
      by simp
    with item show ?thesis
      by blast
  qed
  with g show "\<exists>g. groupped_results set_order ?r = Inr g
              \<and> (\<forall>row\<in>set (groupped_rows g). \<forall>s\<in>set (row_ips row).
                    \<exists>item\<in>set all_results. s = fst item @ '':'' @ port (snd item))"
    by blast
qed

lemma demo_results_run:
  "map with_ip (fst (load_files remdups demo_files demo_hosts)) = demo_results"
  by code_simp

theorem vendor_totals_sum_to_attack_frequency_witness:
  "set_order_ok remdups
   \<and> count_unique_entities demo_results ''attacks'' = Inr [(''Heartbleed'', 3), (''Logjam'', 2)]
   \<and> (\<exists>g vendors.
         groupped_results remdups demo_results = Inr g
       \<and> map_of g ''Logjam'' = Some vendors
       \<and> sum_list (map (\<lambda>item. row_quantity (vendor_row ''Logjam'' (fst item) (snd item)))
                         vendors) = 2
       \<and> 2 = length (filter (has_attack ''Logjam'') (map snd demo_results))
       \<and> mset (concat (map (\<lambda>item. row_ips (vendor_row ''Logjam'' (fst item) (snd item)))
                             vendors))
           = image_mset ip_port_text
               (mset (filter (has_attack ''Logjam'') (map snd demo_results))))"
proof -
  have ok: "set_order_ok remdups"
    by (rule set_order_ok_remdups)
  have ips: "\<forall>h\<in>set (map snd demo_results). ip h \<noteq> None"
    by (simp add: demo_results_def)
  have dist: "\<forall>h\<in>set (map snd demo_results). distinct (entity_names (attacks h))"
    by (simp add: demo_results_def entity_names_def)
  have table: "count_unique_entities demo_results ''attacks''
                 = Inr [(''Heartbleed'', 3), (''Logjam'', 2)]"
    by code_simp
  have look: "map_of [(''Heartbleed'', 3), (''Logjam'', 2 :: nat)] ''Logjam'' = Some 2"
    by simp
  from vendor_totals_sum_to_attack_frequency [OF ok ips dist table look] ok table
  show ?thesis
    by blast
qed

section \<open>Witnesses of the serializer properties\<close>

theorem save_results_csv_prepares_grouped_report_witness:
  "set_order_ok remdups
   \<and> (\<exists>rows. save_results_csv (fst (load_files remdups demo_files demo_hosts))
                  FULL_RESULTS_CSV Map.empty
                = (Inr (map with_ip (fst (load_files remdups demo_files demo_hosts))),
                   [FULL_RESULTS_CSV \<mapsto> FlatCsv rows]))
   \<and> map with_ip (fst (load_files remdups demo_files demo_hosts)) = demo_results
   \<and> groupped_results remdups (fst (load_files remdups demo_files demo_hosts)) = Inl TypeError
   \<and> (\<exists>g. groupped_results remdups (map with_ip (fst (load_files remdups demo_files demo_hosts)))
              = Inr g
          \<and> (\<forall>row\<in>set (groupped_rows g). \<forall>s\<in>set (row_ips row).
                \<exists>item\<in>set (fst (load_files remdups demo_files demo_hosts)).
                   s = fst item @ '':'' @ port (snd item)))"
proof -
  have ok: "set_order_ok remdups"
    by (rule set_order_ok_remdups)
  note th = save_results_csv_prepares_grouped_report
              [OF ok refl, of demo_files demo_hosts FULL_RESULTS_CSV Map.empty]
  have some: "\<exists>h\<in>set (map snd (fst (load_files remdups demo_files demo_hosts))).
                entity_names (attacks h) \<noteq> []"
    by code_simp
  from th some
  have fail: "groupped_results remdups (fst (load_files remdups demo_files demo_hosts))
                = Inl TypeError"
    by simp
  from th ok demo_results_run fail show ?thesis
    by blast
qed

theorem json_failure_ends_the_run_witness:
  "count_unique_entities (fst (load_files remdups demo_files demo_hosts)) ''attacks''
     = Inr [(''Heartbleed'', 3), (''Logjam'', 2)]
   \<and> count_unique_entities (fst (load_files remdups demo_files demo_hosts)) ''bugs'' = Inr []
   \<and> count_unique_entities (fst (load_files remdups demo_files demo_hosts)) ''vulnerabilities''
     = Inr [(''CVE-2014-0160'', 1), (''CVE-2015-0204'', 1), (''CVE-2016-2107'', 1)]
   \<and> failing_dump (Hosts (fst (load_files remdups demo_files demo_hosts))) = None
   \<and> save_all remdups failing_dump (fst (load_files remdups demo_files demo_hosts)) Map.empty
     = (Inl (Exception ''Can not save hosts to json file''), [FULL_RESULTS_JSON \<mapsto> Unfinished])"
proof -
  have a: "count_unique_entities (fst (load_files remdups demo_files demo_hosts)) ''attacks''
     = Inr [(''Heartbleed'', 3), (''Logjam'', 2)]"
    by code_simp
  have b: "count_unique_entities (fst (load_files remdups demo_files demo_hosts)) ''bugs''
     = Inr []"
    by code_simp
  have v: "count_unique_entities (fst (load_files remdups demo_files demo_hosts))
             ''vulnerabilities''
     = Inr [(''CVE-2014-0160'', 1), (''CVE-2015-0204'', 1), (''CVE-2016-2107'', 1)]"
    by code_simp
  have d: "failing_dump (Hosts (fst (load_files remdups demo_files demo_hosts))) = None"
    by (simp add: failing_dump_def)
  from json_failure_ends_the_run [OF a b v, of failing_dump remdups Map.empty] d
  have "save_all remdups failing_dump (fst (load_files remdups demo_files demo_hosts)) Map.empty
     = (Inl (Exception ''Can not save hosts to json file''), [FULL_RESULTS_JSON \<mapsto> Unfinished])"
    by blast
  with a b v d show ?thesis
    by blast
qed

text \<open>
  Claim C9 as stated fails: when the first JSON call fails, the run ends with its
  exception and none of the eight other artifacts is written, although \<^verbatim>\<open>json.dump\<close>
  would succeed on each frequency table.
\<close>

theorem json_failure_leaves_later_artifacts_unwritten:
  "failing_dump (Table [(''Heartbleed'', 3), (''Logjam'', 2)]) = Some ''{}''
   \<and> fst (snd (load_tls_scan_results remdups failing_dump demo_files demo_hosts Map.empty))
       = Inl (Exception ''Can not save hosts to json file'')
   \<and> map (snd (snd (load_tls_scan_results remdups failing_dump demo_files demo_hosts Map.empty)))
         [FULL_RESULTS_JSON, UNIQUE_ATTACKS_JSON, UNIQUE_BUGS_JSON, UNIQUE_VULNERABILITIES_JSON,
          FULL_RESULTS_CSV, UNIQUE_ATTACKS_CSV, UNIQUE_BUGS_CSV, UNIQUE_VULNERABILITIES_CSV,
          UNIQUE_GROUPPED_PRODUCTS_RESULTS_CSV]
       = [Some Unfinished, None, None, None, None, None, None, None, None]"
  by code_simp

section \<open>The order of the products in the grouped report\<close>

lemma file_record_no_dataset:
  "file_record set_order (Map.empty :: 'v hosts) file
     = file_record remdups (Map.empty :: 'v hosts) file"
  by (simp add: file_record_def search_vulnerabilities_def split: decoded.splits list.splits)

lemma process_file_no_dataset:
  "process_file set_order file (res, (Map.empty :: 'v hosts))
     = process_file remdups file (res, (Map.empty :: 'v hosts))"
  by (simp only: process_file_def snd_conv file_record_no_dataset [of set_order])

lemma process_file_keeps_no_dataset:
  "snd (process_file set_order file (res, Map.empty)) = Map.empty"
  by (simp add: process_file_hosts split: option.splits)

lemma load_files_no_dataset:
  "load_files set_order files (Map.empty :: 'v hosts)
     = load_files remdups files (Map.empty :: 'v hosts)"
proof -
  have "fold (process_file set_order) files (res, (Map.empty :: 'v hosts))
          = fold (process_file remdups) files (res, (Map.empty :: 'v hosts))" for res
  proof (induction files arbitrary: res)
    case Nil
    show ?case by simp
  next
    case (Cons f files)
    let ?st = "process_file remdups f (res, (Map.empty :: 'v hosts))"
    have st: "?st = (fst ?st, Map.empty)"
      by (simp add: prod_eq_iff process_file_keeps_no_dataset)
    have "fold (process_file set_order) (f # files) (res, (Map.empty :: 'v hosts))
            = fold (process_file set_order) files ?st"
      by (simp add: process_file_no_dataset [of set_order])
    also have "\<dots> = fold (process_file set_order) files (fst ?st, Map.empty)"
      using st by simp
    also have "\<dots> = fold (process_file remdups) files (fst ?st, Map.empty)"
      by (rule Cons.IH)
    also have "\<dots> = fold (process_file remdups) (f # files) (res, Map.empty)"
      using st by simp
    finally show ?case .
  qed
  then show ?thesis
    by (simp add: load_files_def)
qed

lemma two_orders:
  assumes "distinct xs" and "set xs = {a, b}" and "a \<noteq> b"
  shows "xs = [a, b] \<or> xs = [b, a]"
proof -
  have "length xs = card {a, b}"
    using assms(1,2) by (metis distinct_card)
  then have "length xs = 2"
    using assms(3) by simp
  then obtain x y where xs: "xs = [x, y]"
    by (auto simp: length_Suc_conv numeral_2_eq_2)
  with assms show ?thesis
    by (auto simp: doubleton_eq_iff)
qed

lemma swap_run:
  "map snd (map with_ip (fst (load_files remdups swap_files (Map.empty :: nat hosts))))
     = swap_hosts"
  by code_simp

lemma swap_table:
  "count_unique_entities (map with_ip (fst (load_files remdups swap_files (Map.empty :: nat hosts))))
     ''attacks'' = Inr [(''Heartbleed'', 6)]"
  by code_simp

text \<open>
  Claim C8 fails on the code. \<^verbatim>\<open>sorted\<close> is applied to a dict of one product at a time,
  so the products of a vendor stay in the order of the set iteration. Whatever that order
  is, the run over the six files \<open>swap_files\<close> yields a grouped report in which the
  products of one of the two vendors have the quantities 1, 2: ascending.
\<close>

theorem product_order_ignores_quantity:
  assumes "set_order_ok set_order"
  shows "\<exists>g vendors v prods.
           groupped_results set_order
             (map with_ip (fst (load_files set_order swap_files (Map.empty :: nat hosts)))) = Inr g
         \<and> map_of g ''Heartbleed'' = Some vendors
         \<and> map_of vendors v = Some prods
         \<and> map (\<lambda>item. snd (snd item)) prods = [1, 2]"
proof -
  let ?r = "map with_ip (fst (load_files set_order swap_files (Map.empty :: nat hosts)))"
  have r: "?r = map with_ip (fst (load_files remdups swap_files (Map.empty :: nat hosts)))"
    by (simp only: load_files_no_dataset [of set_order])
  have hosts: "map snd ?r = swap_hosts"
    by (simp only: r swap_run)
  have table: "count_unique_entities ?r ''attacks'' = Inr [(''Heartbleed'', 6)]"
    by (simp only: r swap_table)
  have ips: "\<forall>h\<in>set (map snd ?r). ip h \<noteq> None"
    by (simp only: hosts) (simp add: swap_hosts_def)
  let ?g = "map (\<lambda>attack. (attack, attack_vendors set_order ?r attack))
                (map fst [(''Heartbleed'', 6 :: nat)])"
  have g: "groupped_results set_order ?r = Inr ?g"
    using ips assms table by (rule groupped_results_ok)
  have look: "map_of ?g ''Heartbleed'' = Some (attack_vendors set_order ?r ''Heartbleed'')"
    by simp
  have hs: "filter (has_attack ''Heartbleed'') (map snd ?r) = swap_hosts"
    by (simp only: hosts) (simp add: swap_hosts_def has_attack_def entity_names_def)
  let ?vs = "list_set set_order (map vendor swap_hosts)"
  have vendors: "attack_vendors set_order ?r ''Heartbleed''
                   = map (\<lambda>v. (v, vendor_products set_order swap_hosts v)) ?vs"
    by (simp only: attack_vendors_def Let_def hs)
  have "set ?vs = set (map vendor swap_hosts)"
    using assms by (rule list_set_ok(2))
  then have mem: "''Acme'' \<in> set ?vs" "''Bolt'' \<in> set ?vs"
    by (simp_all add: swap_hosts_def)
  have v_look: "map_of (attack_vendors set_order ?r ''Heartbleed'') v
                  = Some (vendor_products set_order swap_hosts v)" if "v \<in> set ?vs" for v
    unfolding vendors using that by (rule map_of_map_key)
  let ?ps = "set_order [''Box1'', ''Box2'']"
  have acme: "list_set set_order (map product (filter (\<lambda>host. vendor host = ''Acme'') swap_hosts))
                = ?ps"
    by (simp add: list_set_def first_occurrences_def swap_hosts_def)
  have bolt: "list_set set_order (map product (filter (\<lambda>host. vendor host = ''Bolt'') swap_hosts))
                = ?ps"
    by (simp add: list_set_def first_occurrences_def swap_hosts_def)
  have n: "length (product_hosts swap_hosts ''Acme'' ''Box1'') = 1"
          "length (product_hosts swap_hosts ''Acme'' ''Box2'') = 2"
          "length (product_hosts swap_hosts ''Bolt'' ''Box1'') = 2"
          "length (product_hosts swap_hosts ''Bolt'' ''Box2'') = 1"
    by (simp_all add: product_hosts_def swap_hosts_def)
  have q: "map (\<lambda>item. snd (snd item)) (vendor_products set_order swap_hosts ''Acme'')
             = map (\<lambda>p. length (product_hosts swap_hosts ''Acme'' p)) ?ps"
          "map (\<lambda>item. snd (snd item)) (vendor_products set_order swap_hosts ''Bolt'')
             = map (\<lambda>p. length (product_hosts swap_hosts ''Bolt'' p)) ?ps"
    by (simp_all add: vendor_products_def acme bolt comp_def)
  have "distinct ?ps" and "set ?ps = {''Box1'', ''Box2''}"
    using assms by (simp_all add: set_order_ok_def)
  then have "?ps = [''Box1'', ''Box2''] \<or> ?ps = [''Box2'', ''Box1'']"
    by (rule two_orders) simp
  then show ?thesis
  proof
    assume "?ps = [''Box1'', ''Box2'']"
    then have a: "map (\<lambda>item. snd (snd item)) (vendor_products set_order swap_hosts ''Acme'')
                    = [1, 2]"
      by (simp add: q n)
    show ?thesis
    proof (intro exI conjI)
      show "groupped_results set_order ?r = Inr ?g"
        by (rule g)
      show "map_of ?g ''Heartbleed'' = Some (attack_vendors set_order ?r ''Heartbleed'')"
        by (rule look)
      show "map_of (attack_vendors set_order ?r ''Heartbleed'') ''Acme''
              = Some (vendor_products set_order swap_hosts ''Acme'')"
        by (rule v_look [OF mem(1)])
      show "map (\<lambda>item. snd (snd item)) (vendor_products set_order swap_hosts ''Acme'') = [1, 2]"
        by (rule a)
    qed
  next
    assume "?ps = [''Box2'', ''Box1'']"
    then have a: "map (\<lambda>item. snd (snd item)) (vendor_products set_order swap_hosts ''Bolt'')
                    = [1, 2]"
      by (simp add: q n)
    show ?thesis
    proof (intro exI conjI)
      show "groupped_results set_order ?r = Inr ?g"
        by (rule g)
      show "map_of ?g ''Heartbleed'' = Some (attack_vendors set_order ?r ''Heartbleed'')"
        by (rule look)
      show "map_of (attack_vendors set_order ?r ''Heartbleed'') ''Bolt''
              = Some (vendor_products set_order swap_hosts ''Bolt'')"
        by (rule v_look [OF mem(2)])
      show "map (\<lambda>item. snd (snd item)) (vendor_products set_order swap_hosts ''Bolt'') = [1, 2]"
        by (rule a)
    qed
  qed
qed

theorem product_order_ignores_quantity_witness:
  "set_order_ok remdups
   \<and> (\<exists>g vendors v prods.
           groupped_results remdups
             (map with_ip (fst (load_files remdups swap_files (Map.empty :: nat hosts)))) = Inr g
         \<and> map_of g ''Heartbleed'' = Some vendors
         \<and> map_of vendors v = Some prods
         \<and> map (\<lambda>item. snd (snd item)) prods = [1, 2])"
  using product_order_ignores_quantity [OF set_order_ok_remdups] set_order_ok_remdups
  by (rule conjI [rotated])

section \<open>Properties of the Report Decoder\<close>

lemma name_atoms_text: "name_atoms name = map lit (name_text name)"
  by (induction name rule: name_atoms.induct) simp_all

lemma match_here_lit:
  "match_here (lit c # p) s =
     (case s of [] \<Rightarrow> None
      | d # s' \<Rightarrow> if d = c then map_option ((#) 1) (match_here p s') else None)"
  by (cases s) (simp_all add: lit_def)

lemma match_here_lits:
  "match_here (map lit l @ p) s =
     (if take (length l) s = l
      then map_option ((@) (replicate (length l) 1)) (match_here p (drop (length l) s))
      else None)"
proof (induction l arbitrary: s)
  case Nil
  show ?case by (cases "match_here p s") simp_all
next
  case (Cons c l)
  show ?case
  proof (cases s)
    case Nil
    then show ?thesis by (simp add: lit_def)
  next
    case (Cons d s')
    have "match_here (map lit (c # l) @ p) s
            = (if d = c then map_option ((#) 1) (match_here (map lit l @ p) s') else None)"
      by (simp add: Cons lit_def)
    then show ?thesis
      by (auto simp: Cons Cons.IH option.map_comp comp_def)
  qed
qed

lemma greedy_None: "(\<And>n. 0 < n \<Longrightarrow> n \<le> k \<Longrightarrow> f n = None) \<Longrightarrow> greedy f k = None"
  by (induction k) simp_all

lemma greedy_top:
  assumes "\<And>n. 0 < n \<Longrightarrow> n < k \<Longrightarrow> f n = None"
  shows "greedy f k = (if k = 0 then None else map_option ((#) k) (f k))"
proof (cases k)
  case 0
  then show ?thesis by simp
next
  case (Suc m)
  have "greedy f m = None"
    by (rule greedy_None) (simp add: assms Suc)
  then show ?thesis
    by (simp add: Suc split: option.splits)
qed

lemma match_here_word_run:
  "match_here [(is_word, Many)] s =
     (if takeWhile is_word s = [] then None else Some [length (takeWhile is_word s)])"
proof -
  have "greedy (\<lambda>n. match_here [] (drop n s)) k = (if k = 0 then None else Some [k])" for k
    by (cases k) simp_all
  then show ?thesis
    by simp
qed

lemma is_space_not_colon: "is_space c \<Longrightarrow> c \<noteq> CHR '':''"
  by (auto simp: is_space_def)

lemma match_here_space_run:
  "match_here ((is_space, Many) # lit CHR '':'' # p) s =
     (let k = length (takeWhile is_space s)
      in if k = 0 then None
         else map_option ((#) k) (match_here (lit CHR '':'' # p) (drop k s)))"
proof -
  let ?k = "length (takeWhile is_space s)"
  have "match_here (lit CHR '':'' # p) (drop n s) = None" if "0 < n" and "n < ?k" for n
  proof -
    have "n < length s"
      using that(2) length_takeWhile_le [of is_space s] by simp
    then have d: "drop n s = s ! n # drop (Suc n) s"
      by (simp add: Cons_nth_drop_Suc)
    have "takeWhile is_space s ! n = s ! n"
      using that(2) by (rule takeWhile_nth)
    moreover have "is_space (takeWhile is_space s ! n)"
      using that(2) by (metis nth_mem set_takeWhileD)
    ultimately have "s ! n \<noteq> CHR '':''"
      using is_space_not_colon by metis
    then show ?thesis
      by (subst match_here_lit) (simp add: d)
  qed
  then have "greedy (\<lambda>n. match_here (lit CHR '':'' # p) (drop n s)) ?k
               = (if ?k = 0 then None
                  else map_option ((#) ?k) (match_here (lit CHR '':'' # p) (drop ?k s)))"
    by (rule greedy_top)
  then show ?thesis
    by (simp add: Let_def)
qed

lemma match_here_tail:
  "match_here [lit CHR '':'', lit CHR '' '', (is_word, Many)] t =
     (case t of
        c # d # s2 \<Rightarrow>
          if c = CHR '':'' \<and> d = CHR '' '' \<and> takeWhile is_word s2 \<noteq> []
          then Some [1, 1, length (takeWhile is_word s2)] else None
      | _ \<Rightarrow> None)"
proof (cases t)
  case Nil
  then show ?thesis by (simp add: lit_def)
next
  case t: (Cons c t')
  show ?thesis
  proof (cases t')
    case Nil
    then show ?thesis by (simp add: t lit_def)
  next
    case (Cons d s2)
    have "match_here [(is_word, Many)] s2 =
            (if takeWhile is_word s2 = [] then None else Some [length (takeWhile is_word s2)])"
      by (rule match_here_word_run)
    then show ?thesis
      by (simp add: t Cons lit_def del: match_here.simps(2)
            add: match_here.simps(2) [of "(\<lambda>d. d = CHR '':'', Once)"]
                 match_here.simps(2) [of "(\<lambda>d. d = CHR '' '', Once)"])
  qed
qed

lemma group_text_entry:
  "group_text s 0 (replicate n 1 @ [k, 1, 1, m]) (n + 3, 1) = take m (drop (n + k + 2) s)"
  by (simp add: group_text_def sum_list_replicate)

lemma match_here_entry:
  "map_option (\<lambda>ls. group_text s 0 ls (length l + 3, 1))
     (match_here (map lit l @ [(is_space, Many), lit CHR '':'', lit CHR '' '', (is_word, Many)]) s)
   = entry_value l s"
proof (cases "take (length l) s = l")
  case False
  then show ?thesis
    by (simp add: match_here_lits entry_value_def)
next
  case True
  let ?s1 = "drop (length l) s"
  let ?ws = "takeWhile is_space ?s1"
  let ?k = "length ?ws"
  let ?t = "drop ?k ?s1"
  have m1: "match_here (map lit l @ [(is_space, Many), lit CHR '':'', lit CHR '' '', (is_word, Many)]) s
     = map_option ((@) (replicate (length l) 1))
         (match_here [(is_space, Many), lit CHR '':'', lit CHR '' '', (is_word, Many)] ?s1)"
    using True by (simp add: match_here_lits del: match_here.simps)
  have m2: "match_here [(is_space, Many), lit CHR '':'', lit CHR '' '', (is_word, Many)] ?s1
     = (if ?k = 0 then None
        else map_option ((#) ?k) (match_here [lit CHR '':'', lit CHR '' '', (is_word, Many)] ?t))"
    by (simp only: match_here_space_run Let_def)
  show ?thesis
  proof (cases "?ws = []")
    case True
    then show ?thesis
      using \<open>take (length l) s = l\<close> by (simp add: m1 m2 entry_value_def)
  next
    case False
    then have k: "?k \<noteq> 0"
      by simp
    show ?thesis
    proof (cases "\<exists>s2. ?t = CHR '':'' # CHR '' '' # s2 \<and> takeWhile is_word s2 \<noteq> []")
      case True
      then obtain s2 where t: "?t = CHR '':'' # CHR '' '' # s2" and w: "takeWhile is_word s2 \<noteq> []"
        by blast
      have tail: "match_here [lit CHR '':'', lit CHR '' '', (is_word, Many)] ?t
                    = Some [1, 1, length (takeWhile is_word s2)]"
        by (simp only: match_here_tail t) (simp add: w)
      have "drop (length l + ?k + 2) s = drop (2 + (?k + length l)) s"
        by (simp add: ac_simps)
      also have "\<dots> = drop 2 ?t"
        by (simp only: drop_drop)
      also have "\<dots> = s2"
        by (simp only: t) simp
      finally have "drop (length l + ?k + 2) s = s2" .
      then have g: "take (length (takeWhile is_word s2)) (drop (length l + ?k + 2) s)
                      = takeWhile is_word s2"
        by (simp add: takeWhile_eq_take [symmetric])
      have "map_option (\<lambda>ls. group_text s 0 ls (length l + 3, 1))
              (match_here (map lit l @ [(is_space, Many), lit CHR '':'', lit CHR '' '', (is_word, Many)]) s)
            = Some (take (length (takeWhile is_word s2)) (drop (length l + ?k + 2) s))"
        using k by (simp only: m1 m2 tail if_False option.map group_text_entry append_Cons append_Nil)
      moreover have "entry_value l s = Some (takeWhile is_word s2)"
        using \<open>take (length l) s = l\<close> False t w by (simp add: entry_value_def Let_def)
      ultimately show ?thesis
        by (simp only: g)
    next
      case no: False
      have tail: "match_here [lit CHR '':'', lit CHR '' '', (is_word, Many)] ?t = None"
        using no by (simp only: match_here_tail) (auto split: list.splits)
      have "entry_value l s = None"
        using \<open>take (length l) s = l\<close> no by (auto simp: entry_value_def Let_def split: list.splits)
      then show ?thesis
        using k by (simp only: m1 m2 tail) simp
    qed
  qed
qed

lemma entry_value_match: "entry_value l s = Some v \<longleftrightarrow> entry_match l s v"
proof
  assume ev: "entry_value l s = Some v"
  let ?s1 = "drop (length l) s"
  let ?ws = "takeWhile is_space ?s1"
  from ev have pre: "take (length l) s = l"
    by (simp add: entry_value_def split: if_splits)
  from ev pre have ws: "?ws \<noteq> []"
    by (auto simp: entry_value_def Let_def split: if_splits)
  from ev pre ws obtain s2 where t: "drop (length ?ws) ?s1 = CHR '':'' # CHR '' '' # s2"
    and v: "v = takeWhile is_word s2" and vne: "takeWhile is_word s2 \<noteq> []"
    by (auto simp: entry_value_def Let_def split: if_splits list.splits)
  have "s = take (length l) s @ ?s1"
    by simp
  then have s: "s = l @ ?s1"
    by (simp only: pre)
  have "?s1 = ?ws @ dropWhile is_space ?s1"
    by simp
  also have "dropWhile is_space ?s1 = drop (length ?ws) ?s1"
    by (rule dropWhile_eq_drop)
  finally have s1: "?s1 = ?ws @ CHR '':'' # CHR '' '' # s2"
    by (simp only: t)
  have s2: "s2 = v @ dropWhile is_word s2"
    by (simp add: v)
  have "s = l @ ?ws @ '': '' @ v @ dropWhile is_word s2"
    using s s1 s2 by simp
  moreover have "\<forall>c\<in>set ?ws. is_space c"
    by (auto dest: set_takeWhileD)
  moreover have "\<forall>c\<in>set v. is_word c"
    by (auto simp: v dest: set_takeWhileD)
  moreover have "dropWhile is_word s2 = [] \<or> \<not> is_word (hd (dropWhile is_word s2))"
    by (metis hd_dropWhile)
  ultimately show "entry_match l s v"
    unfolding entry_match_def using ws vne v by blast
next
  assume "entry_match l s v"
  then obtain ws rest where s: "s = l @ ws @ '': '' @ v @ rest"
    and ws: "ws \<noteq> []" "\<forall>c\<in>set ws. is_space c"
    and v: "v \<noteq> []" "\<forall>c\<in>set v. is_word c"
    and rest: "rest = [] \<or> \<not> is_word (hd rest)"
    unfolding entry_match_def by blast
  have pre: "take (length l) s = l"
    by (simp add: s)
  have s1: "drop (length l) s = ws @ CHR '':'' # CHR '' '' # v @ rest"
    by (simp add: s)
  have "\<not> is_space CHR '':''"
    using is_space_not_colon by blast
  then have tw: "takeWhile is_space (ws @ CHR '':'' # CHR '' '' # v @ rest) = ws"
    using ws(2) by (simp add: takeWhile_append2)
  have "takeWhile is_word rest = []"
    using rest by (cases rest) auto
  then have tv: "takeWhile is_word (v @ rest) = v"
    using v(2) by (simp add: takeWhile_append2)
  show "entry_value l s = Some v"
    using ws(1) v(1) by (simp add: entry_value_def pre s1 tw tv Let_def)
qed

lemma entry_value_None: "entry_value l s = None \<longleftrightarrow> (\<forall>v. \<not> entry_match l s v)"
  using entry_value_match [of l s] by (cases "entry_value l s") auto

lemma re_search_Some:
  assumes "re_search p s = Some (i, ls)"
  shows "i \<le> length s \<and> match_here p (drop i s) = Some ls
         \<and> (\<forall>j<i. match_here p (drop j s) = None)"
  using assms
proof (induction s arbitrary: i)
  case Nil
  then show ?case by auto
next
  case (Cons c cs)
  show ?case
  proof (cases "match_here p (c # cs)")
    case (Some ls')
    with Cons.prems show ?thesis by simp
  next
    case None
    with Cons.prems obtain i' where r: "re_search p cs = Some (i', ls)" and i: "i = Suc i'"
      by (auto split: option.splits)
    from Cons.IH [OF r] have ih: "i' \<le> length cs" "match_here p (drop i' cs) = Some ls"
      "\<forall>j<i'. match_here p (drop j cs) = None"
      by simp_all
    have "match_here p (drop j (c # cs)) = None" if "j < i" for j
    proof (cases j)
      case 0
      then show ?thesis using None by simp
    next
      case (Suc j')
      then show ?thesis using that ih(3) i by simp
    qed
    then show ?thesis
      using ih(1,2) i by simp
  qed
qed

lemma re_search_first:
  assumes "i \<le> length s" and "match_here p (drop i s) = Some ls"
      and "\<forall>j<i. match_here p (drop j s) = None"
  shows "re_search p s = Some (i, ls)"
  using assms
proof (induction s arbitrary: i)
  case Nil
  then show ?case by simp
next
  case (Cons c cs)
  show ?case
  proof (cases i)
    case 0
    then show ?thesis using Cons.prems(2) by simp
  next
    case (Suc i')
    have none: "match_here p (c # cs) = None"
      using Cons.prems(3) [rule_format, of 0] Suc by simp
    have "re_search p cs = Some (i', ls)"
    proof (rule Cons.IH)
      show "i' \<le> length cs" using Cons.prems(1) Suc by simp
      show "match_here p (drop i' cs) = Some ls" using Cons.prems(2) Suc by simp
      show "\<forall>j<i'. match_here p (drop j cs) = None"
        using Cons.prems(3) Suc by (metis Suc_less_eq drop_Suc_Cons)
    qed
    then show ?thesis
      by (simp add: none Suc)
  qed
qed

lemma group_text_drop: "group_text s i ls g = group_text (drop i s) 0 ls g"
  by (simp add: group_text_def add.commute)

lemma findall_head:
  "(\<exists>rest. findall p gs s = x # rest)
     \<longleftrightarrow> (\<exists>i ls. re_search p s = Some (i, ls) \<and> map (group_text s i ls) gs = x)"
  by (subst findall.simps) (auto split: option.splits)

lemma findall_entry_first_value:
  "(\<exists>rest. findall_entry name text = [v] # rest) \<longleftrightarrow> first_value (name_text name) text v"
proof -
  let ?l = "name_text name"
  let ?p = "map lit ?l @ [(is_space, Many), lit CHR '':'', lit CHR '' '', (is_word, Many)]"
  let ?g = "(length ?l + 3, 1)"
  have evl: "map_option (\<lambda>ls. group_text s 0 ls ?g) (match_here ?p s) = entry_value ?l s" for s
    by (rule match_here_entry)
  have head: "(\<exists>rest. findall_entry name text = [v] # rest)
                \<longleftrightarrow> (\<exists>i ls. re_search ?p text = Some (i, ls) \<and> group_text text i ls ?g = v)"
    by (simp add: findall_entry_def entry_pattern_def entry_groups_def name_atoms_text
                  findall_head)
  show ?thesis
  proof
    assume "\<exists>rest. findall_entry name text = [v] # rest"
    then obtain i ls where r: "re_search ?p text = Some (i, ls)"
      and g: "group_text text i ls ?g = v"
      using head by blast
    from re_search_Some [OF r] have i: "i \<le> length text"
      and m: "match_here ?p (drop i text) = Some ls"
      and before: "\<forall>j<i. match_here ?p (drop j text) = None"
      by simp_all
    have "entry_value ?l (drop i text) = Some v"
      using evl [of "drop i text"] group_text_drop [of "text" i ls "?g"] m g by simp
    then have here: "entry_match ?l (drop i text) v"
      by (simp add: entry_value_match)
    have "\<forall>w. \<not> entry_match ?l (drop j text) w" if "j < i" for j
    proof -
      have "entry_value ?l (drop j text) = None"
        using evl [of "drop j text"] before that by simp
      then show ?thesis
        by (simp add: entry_value_None)
    qed
    with i here show "first_value ?l text v"
      unfolding first_value_def by blast
  next
    assume "first_value ?l text v"
    then obtain i where i: "i \<le> length text" and here: "entry_match ?l (drop i text) v"
      and before: "\<forall>j<i. \<forall>w. \<not> entry_match ?l (drop j text) w"
      unfolding first_value_def by blast
    from here have "entry_value ?l (drop i text) = Some v"
      by (simp add: entry_value_match)
    then obtain ls where m: "match_here ?p (drop i text) = Some ls"
      and g: "group_text (drop i text) 0 ls ?g = v"
      using evl [of "drop i text"] by (cases "match_here ?p (drop i text)") auto
    have none: "\<forall>j<i. match_here ?p (drop j text) = None"
    proof (intro allI impI)
      fix j
      assume "j < i"
      then have "entry_value ?l (drop j text) = None"
        using before by (simp add: entry_value_None)
      then show "match_here ?p (drop j text) = None"
        using evl [of "drop j text"] by (cases "match_here ?p (drop j text)") auto
    qed
    have "re_search ?p text = Some (i, ls)"
      using i m none by (rule re_search_first)
    moreover have "group_text text i ls ?g = v"
      using g group_text_drop [of "text" i ls "?g"] by simp
    ultimately show "\<exists>rest. findall_entry name text = [v] # rest"
      using head by blast
  qed
qed

lemma parse_entries_keys:
  "fst ` set (parse_entries catalog text)
     = {e \<in> set catalog. \<exists>rest. findall_entry e text = [''true''] # rest}"
proof -
  let ?hit = "\<lambda>e. \<exists>rest. findall_entry e text = [''true''] # rest"
  let ?step = "\<lambda>entry acc.
             (case findall_entry entry text of
                [] \<Rightarrow> acc
              | r # _ \<Rightarrow> if r = [''true''] then AList.update entry True acc else acc)"
  have step: "fst ` set (?step e acc) = fst ` set acc \<union> (if ?hit e then {e} else {})"
    for e and acc :: names
    by (cases "findall_entry e text") (auto simp: dom_update)
  have "fst ` set (fold ?step catalog acc) = fst ` set acc \<union> {e \<in> set catalog. ?hit e}"
    for acc :: names
  proof (induction catalog arbitrary: acc)
    case Nil
    show ?case by simp
  next
    case (Cons e catalog)
    have "fst ` set (fold ?step (e # catalog) acc)
            = fst ` set (?step e acc) \<union> {e \<in> set catalog. ?hit e}"
      by (simp only: fold_simps Cons.IH)
    also have "\<dots> = fst ` set acc \<union> (if ?hit e then {e} else {}) \<union> {e \<in> set catalog. ?hit e}"
      by (simp only: step)
    also have "\<dots> = fst ` set acc \<union> {x \<in> set (e # catalog). ?hit x}"
      by auto
    finally show ?case .
  qed
  from this [of "[]"] show ?thesis
    by (simp add: parse_entries_def)
qed

lemma name_text_attacks: "\<forall>e\<in>set LIST_OF_ATTACKS. name_text e = e"
  by (simp add: LIST_OF_ATTACKS_def)

lemma name_text_bugs:
  "\<forall>e\<in>set LIST_OF_BUGS.
     name_text e = (if e = CS_LENGTH then ''CS Length Intolerant (>512 Byte)'' else e)"
  by (simp add: LIST_OF_BUGS_def CS_LENGTH_def)

text \<open>
  Claim C2, amended. For every report text without a failure marker the decoder returns
  two dicts, and an entry of a catalog is a key of its dict iff the first match in the
  text of the entry name, read as a regular expression, followed by white space, a colon,
  a blank and a run of word characters, has exactly \<^verbatim>\<open>true\<close> as that run. For every
  entry but one the regular expression stands for the name itself; for the bug entry
  \<^verbatim>\<open>CS Length Intolerant \(>512 Byte\)\<close> it stands for the text
  \<^verbatim>\<open>CS Length Intolerant (>512 Byte)\<close>. Every key of the two dicts is an entry of
  its catalog.
\<close>

theorem decoder_includes_first_true_match:
  assumes "\<not> contains text ''Cannot reach the Server''"
      and "\<not> contains text ''Server does not seem to support SSL''"
  shows "\<exists>atk bgs. parse_attacks text = Decoded atk bgs
     \<and> (\<forall>e\<in>set LIST_OF_ATTACKS. (e \<in> fst ` set atk) = first_value e text ''true'')
     \<and> (\<forall>e\<in>set LIST_OF_BUGS.
           (e \<in> fst ` set bgs)
             = first_value (if e = CS_LENGTH then ''CS Length Intolerant (>512 Byte)'' else e)
                 text ''true'')
     \<and> fst ` set atk \<subseteq> set LIST_OF_ATTACKS
     \<and> fst ` set bgs \<subseteq> set LIST_OF_BUGS"
proof (intro exI conjI)
  show "parse_attacks text
          = Decoded (parse_entries LIST_OF_ATTACKS text) (parse_entries LIST_OF_BUGS text)"
    using assms by (simp add: parse_attacks_def)
  show "\<forall>e\<in>set LIST_OF_ATTACKS.
          (e \<in> fst ` set (parse_entries LIST_OF_ATTACKS text)) = first_value e text ''true''"
  proof
    fix e
    assume e: "e \<in> set LIST_OF_ATTACKS"
    then have "name_text e = e"
      using name_text_attacks by blast
    then show "(e \<in> fst ` set (parse_entries LIST_OF_ATTACKS text)) = first_value e text ''true''"
      using e findall_entry_first_value [of e "text" "''true''"]
      by (simp add: parse_entries_keys)
  qed
  show "\<forall>e\<in>set LIST_OF_BUGS.
          (e \<in> fst ` set (parse_entries LIST_OF_BUGS text))
            = first_value (if e = CS_LENGTH then ''CS Length Intolerant (>512 Byte)'' else e)
                text ''true''"
  proof
    fix e
    assume e: "e \<in> set LIST_OF_BUGS"
    then have "name_text e = (if e = CS_LENGTH then ''CS Length Intolerant (>512 Byte)'' else e)"
      using name_text_bugs by blast
    then show "(e \<in> fst ` set (parse_entries LIST_OF_BUGS text))
            = first_value (if e = CS_LENGTH then ''CS Length Intolerant (>512 Byte)'' else e)
                text ''true''"
      using e findall_entry_first_value [of e "text" "''true''"]
      by (simp add: parse_entries_keys)
  qed
  show "fst ` set (parse_entries LIST_OF_ATTACKS text) \<subseteq> set LIST_OF_ATTACKS"
    by (auto simp: parse_entries_keys)
  show "fst ` set (parse_entries LIST_OF_BUGS text) \<subseteq> set LIST_OF_BUGS"
    by (auto simp: parse_entries_keys)
qed

theorem decoder_includes_first_true_match_witness:
  "\<not> contains demo_report ''Cannot reach the Server''
   \<and> \<not> contains demo_report ''Server does not seem to support SSL''
   \<and> parse_attacks demo_report = Decoded [(''Heartbleed'', True)] [(CS_LENGTH, True)]
   \<and> (\<exists>atk bgs. parse_attacks demo_report = Decoded atk bgs
     \<and> (\<forall>e\<in>set LIST_OF_ATTACKS. (e \<in> fst ` set atk) = first_value e demo_report ''true'')
     \<and> (\<forall>e\<in>set LIST_OF_BUGS.
           (e \<in> fst ` set bgs)
             = first_value (if e = CS_LENGTH then ''CS Length Intolerant (>512 Byte)'' else e)
                 demo_report ''true'')
     \<and> fst ` set atk \<subseteq> set LIST_OF_ATTACKS
     \<and> fst ` set bgs \<subseteq> set LIST_OF_BUGS)"
proof -
  have a: "\<not> contains demo_report ''Cannot reach the Server''"
    by code_simp
  have b: "\<not> contains demo_report ''Server does not seem to support SSL''"
    by code_simp
  have c: "parse_attacks demo_report = Decoded [(''Heartbleed'', True)] [(CS_LENGTH, True)]"
    by code_simp
  from decoder_includes_first_true_match [OF a b] a b c show ?thesis
    by (intro conjI)
qed

lemma literal_line_first_value: "first_value l (l @ '' : true'') ''true''"
proof -
  have "entry_match l (l @ '' : true'') ''true''"
    unfolding entry_match_def
    by (intro exI [of _ "'' ''"] exI [of _ "[]"]) (simp add: is_space_def is_word_def)
  then show ?thesis
    unfolding first_value_def by (intro exI [of _ 0]) simp
qed

text \<open>
  Claim C2 as stated fails for the bug entry with the escaped parentheses: in the text
  made of the entry name, a blank, a colon, a blank and \<^verbatim>\<open>true\<close>, the first match of
  name, white space, colon and value has the value \<^verbatim>\<open>true\<close>, and the decoder returns
  no bug at all. It returns the entry for the text with plain parentheses.
\<close>

theorem literal_entry_line_not_decoded:
  "CS_LENGTH \<in> set LIST_OF_BUGS
   \<and> \<not> contains (CS_LENGTH @ '' : true'') ''Cannot reach the Server''
   \<and> \<not> contains (CS_LENGTH @ '' : true'') ''Server does not seem to support SSL''
   \<and> first_value CS_LENGTH (CS_LENGTH @ '' : true'') ''true''
   \<and> parse_attacks (CS_LENGTH @ '' : true'') = Decoded [] []
   \<and> parse_attacks ''CS Length Intolerant (>512 Byte) : true'' = Decoded [] [(CS_LENGTH, True)]"
proof -
  have a: "CS_LENGTH \<in> set LIST_OF_BUGS"
    by (simp add: LIST_OF_BUGS_def CS_LENGTH_def)
  have b: "\<not> contains (CS_LENGTH @ '' : true'') ''Cannot reach the Server''"
    by code_simp
  have c: "\<not> contains (CS_LENGTH @ '' : true'') ''Server does not seem to support SSL''"
    by code_simp
  have d: "parse_attacks (CS_LENGTH @ '' : true'') = Decoded [] []"
    by code_simp
  have e: "parse_attacks ''CS Length Intolerant (>512 Byte) : true''
             = Decoded [] [(CS_LENGTH, True)]"
    by code_simp
  from a b c d e literal_line_first_value [of CS_LENGTH] show ?thesis
    by blast
qed

lemma contains_substring: "contains s m \<longleftrightarrow> (\<exists>pre post. s = pre @ m @ post)"
proof (induction s)
  case Nil
  show ?case by auto
next
  case (Cons c cs)
  show ?case
  proof
    assume "contains (c # cs) m"
    then consider "take (length m) (c # cs) = m" | "contains cs m"
      by auto
    then show "\<exists>pre post. c # cs = pre @ m @ post"
    proof cases
      case 1
      then have "c # cs = [] @ m @ drop (length m) (c # cs)"
        by (metis append_Nil append_take_drop_id)
      then show ?thesis by blast
    next
      case 2
      then obtain pre post where "cs = pre @ m @ post"
        using Cons.IH by blast
      then have "c # cs = (c # pre) @ m @ post"
        by simp
      then show ?thesis by blast
    qed
  next
    assume "\<exists>pre post. c # cs = pre @ m @ post"
    then obtain pre post where s: "c # cs = pre @ m @ post"
      by blast
    show "contains (c # cs) m"
    proof (cases pre)
      case Nil
      then have "take (length m) (c # cs) = m"
        using s by simp
      then show ?thesis by simp
    next
      case (Cons d pre')
      then have "cs = pre' @ m @ post"
        using s by simp
      then have "contains cs m"
        using Cons.IH by blast
      then show ?thesis by simp
    qed
  qed
qed

section \<open>The result map that the grouped serializer receives\<close>

text \<open>
  \<^verbatim>\<open>save_results_csv\<close> changes neither the names nor the vulnerabilities of a record, so
  the frequency tables counted before it are those of the map after it; and in that map
  every host carries its ip and lists each attack once.
\<close>

lemma entity_names_with_ip:
  "entity_names (attacks (snd (with_ip item))) = entity_names (attacks (snd item))"
  "entity_names (bugs (snd (with_ip item))) = entity_names (bugs (snd item))"
  "vulnerabilities (snd (with_ip item)) = vulnerabilities (snd item)"
  by (simp_all add: with_ip_def entity_names_def)

lemma count_unique_entities_with_ip:
  "count_unique_entities (map with_ip results) ''attacks''
     = count_unique_entities results ''attacks''"
  "count_unique_entities (map with_ip results) ''bugs''
     = count_unique_entities results ''bugs''"
  "count_unique_entities (map with_ip results) ''vulnerabilities''
     = count_unique_entities results ''vulnerabilities''"
  by (simp_all add: count_unique_entities_attacks count_unique_entities_bugs
        count_unique_entities_vulnerabilities comp_def entity_names_with_ip)

lemma run_results_wellformed:
  "\<forall>h\<in>set (map snd (map with_ip (fst (load_files set_order files hosts)))).
     ip h \<noteq> None \<and> distinct (entity_names (attacks h))"
  by (rule with_ip_wellformed) (rule load_files_fresh)

end
